theory Spec2Isabelle
  imports Main "HOL-Library.Word" "HOL-Library.AList"
begin

unbundle bit_operations_syntax

section \<open>Data model of package proc\<close>

text \<open>
  The consensus process of \<^verbatim>\<open>src/proc/proc.go\<close>: the struct \<^verbatim>\<open>Process\<close>, its event
  entry points and the conditions they try.
\<close>

text \<open>
  Modelled from the spec: the declarations of \<^verbatim>\<open>Height\<close>, \<^verbatim>\<open>Round\<close>, \<^verbatim>\<open>Pid\<close> and \<^verbatim>\<open>Value\<close>
  and the sentinels \<^verbatim>\<open>InvalidRound\<close> and \<^verbatim>\<open>NilValue\<close> of package proc, which are not among
  the sources. The specification (section 3) has heights and rounds as counters with
  the sentinel \<^verbatim>\<open>InvalidRound = -1\<close>, and participant identities and values as opaque
  data with equality and a distinguished \<^verbatim>\<open>NilValue\<close>; \<^verbatim>\<open>src/block/block.go\<close> declares
  \<^verbatim>\<open>Height\<close> and \<^verbatim>\<open>Round\<close> as signed 64-bit integers with \<^verbatim>\<open>InvalidRound = Round(-1)\<close>.
  Heights, rounds and the fault bound \<^verbatim>\<open>F\<close> (a Go \<^verbatim>\<open>int\<close>) are mathematical integers
  here: the only arithmetic on them is \<^verbatim>\<open>+ 1\<close> and \<^verbatim>\<open>2*F + 1\<close>, and no property below
  rests on wrap-around at the 64-bit boundary. Identities and values are natural
  numbers, \<^verbatim>\<open>NilValue\<close> being 0.
\<close>

type_synonym Height = int
type_synonym Round = int
type_synonym Pid = nat
type_synonym Value = nat
type_synonym Signature = nat
type_synonym OnceFlag = "16 word"

definition InvalidRound :: Round where
  "InvalidRound = - 1"

definition NilValue :: Value where
  "NilValue = 0"

text \<open>
  Modelled from the spec: the type \<^verbatim>\<open>Step\<close> of package proc, not among the sources; the
  three steps of the specification (section 3), in the order that the comparison
  \<^verbatim>\<open>CurrentStep < Prevoting\<close> of \<^verbatim>\<open>proc.go\<close> relies on.
\<close>

datatype Step = Proposing | Prevoting | Precommitting

fun stepOrd :: "Step \<Rightarrow> nat" where
  "stepOrd Proposing = 0"
| "stepOrd Prevoting = 1"
| "stepOrd Precommitting = 2"

text \<open>
  Modelled from the spec: the message structs \<^verbatim>\<open>Propose\<close>, \<^verbatim>\<open>Prevote\<close> and \<^verbatim>\<open>Precommit\<close>
  of package proc and their \<^verbatim>\<open>Equal\<close> methods, not among the sources. Each message
  carries height, round, sender and signature, a propose also value and valid round, a
  prevote and a precommit a value (section 3); the fields are named as \<^verbatim>\<open>proc.go\<close>
  reads them. \<^verbatim>\<open>Equal\<close> is equality of the structs.
\<close>

record Propose =
  ProposeHeight :: Height
  ProposeRound :: Round
  ProposeValue :: Value
  ProposeValidRound :: Round
  ProposeFrom :: Pid
  ProposeSignature :: Signature

record Prevote =
  PrevoteHeight :: Height
  PrevoteRound :: Round
  PrevoteValue :: Value
  PrevoteFrom :: Pid
  PrevoteSignature :: Signature

record Precommit =
  PrecommitHeight :: Height
  PrecommitRound :: Round
  PrecommitValue :: Value
  PrecommitFrom :: Pid
  PrecommitSignature :: Signature

text \<open>
  Everything the process hands to its output collaborators (\<^verbatim>\<open>Timer\<close>,
  \<^verbatim>\<open>Broadcaster\<close>, \<^verbatim>\<open>Committer\<close>, \<^verbatim>\<open>Catcher\<close>) is recorded, in call order, as a
  list of effects. The collaborators must not call back into the process, so the list
  is all there is to observe.
\<close>

datatype Effect =
    TimeoutPropose Height Round
  | TimeoutPrevote Height Round
  | TimeoutPrecommit Height Round
  | BroadcastPropose Height Round Value Round
  | BroadcastPrevote Height Round Value
  | BroadcastPrecommit Height Round Value
  | Commit Height Value
  | CatchDoublePropose Propose Propose
  | CatchDoublePrevote Prevote Prevote
  | CatchDoublePrecommit Precommit Precommit

text \<open>
  Modelled from the spec: the struct \<^verbatim>\<open>State\<close> that \<^verbatim>\<open>Process\<close> embeds, not among the
  sources of package proc; its fields are those of the process state in section 3, named
  as \<^verbatim>\<open>proc.go\<close> reads them (\<^verbatim>\<open>src/process/state.go\<close> has the same fields, with blocks
  for values).
\<close>

record State =
  CurrentHeight :: Height
  CurrentRound :: Round
  CurrentStep :: Step
  LockedValue :: Value
  LockedRound :: Round
  ValidValue :: Value
  ValidRound :: Round

text \<open>
  \<^verbatim>\<open>Process\<close> embeds \<^verbatim>\<open>State\<close>. The input collaborators are pure functions held in the
  struct. The outer Go maps are partial functions; an inner map \<^verbatim>\<open>map[Pid]Prevote\<close>
  is an association list, updated with \<^const>\<open>AList.update\<close>, so that \<^verbatim>\<open>len\<close> and the
  \<^verbatim>\<open>range\<close> loops compute.
\<close>

record Process = State +
  scheduler :: "Height \<Rightarrow> Round \<Rightarrow> Pid"
  proposer :: "Height \<Rightarrow> Round \<Rightarrow> Value"
  validator :: "Value \<Rightarrow> bool"
  ProposeLogs :: "Round \<rightharpoonup> Propose"
  PrevoteLogs :: "Round \<rightharpoonup> (Pid \<times> Prevote) list"
  PrecommitLogs :: "Round \<rightharpoonup> (Pid \<times> Precommit) list"
  F :: int
  OnceFlags :: "Round \<rightharpoonup> OnceFlag"
  Whoami :: Pid
  effects :: "Effect list"

definition OnceFlagTimeoutPrecommitUponSufficientPrecommits :: OnceFlag where
  "OnceFlagTimeoutPrecommitUponSufficientPrecommits = 1"

definition OnceFlagTimeoutPrevoteUponSufficientPrevotes :: OnceFlag where
  "OnceFlagTimeoutPrevoteUponSufficientPrevotes = 2"

definition OnceFlagPrecommitUponSufficientPrevotes :: OnceFlag where
  "OnceFlagPrecommitUponSufficientPrevotes = 4"

section \<open>Helpers\<close>

definition emit :: "Effect \<Rightarrow> Process \<Rightarrow> Process" where
  "emit e p = p\<lparr>effects := effects p @ [e]\<rparr>"

text \<open>Reading a Go map at a missing key gives the zero value: flag word 0, the nil map.\<close>

definition onceFlagsAt :: "Process \<Rightarrow> Round \<Rightarrow> OnceFlag" where
  "onceFlagsAt p r = (case OnceFlags p r of None \<Rightarrow> 0 | Some w \<Rightarrow> w)"

definition prevotesAt :: "Process \<Rightarrow> Round \<Rightarrow> (Pid \<times> Prevote) list" where
  "prevotesAt p r = (case PrevoteLogs p r of None \<Rightarrow> [] | Some m \<Rightarrow> m)"

definition precommitsAt :: "Process \<Rightarrow> Round \<Rightarrow> (Pid \<times> Precommit) list" where
  "precommitsAt p r = (case PrecommitLogs p r of None \<Rightarrow> [] | Some m \<Rightarrow> m)"

definition checkOnceFlag :: "Process \<Rightarrow> Round \<Rightarrow> OnceFlag \<Rightarrow> bool" where
  "checkOnceFlag p round flag = (onceFlagsAt p round AND flag = flag)"

definition setOnceFlag :: "Round \<Rightarrow> OnceFlag \<Rightarrow> Process \<Rightarrow> Process" where
  "setOnceFlag round flag p = p\<lparr>OnceFlags := (OnceFlags p)(round \<mapsto> onceFlagsAt p round OR flag)\<rparr>"

text \<open>The counting loops \<^verbatim>\<open>for _, prevote := range ... { if prevote.Value.Equal(&v) { n++ } }\<close>.\<close>

definition countPrevotes :: "Process \<Rightarrow> Round \<Rightarrow> Value \<Rightarrow> int" where
  "countPrevotes p r v = int (length (filter (\<lambda>kv. PrevoteValue (snd kv) = v) (prevotesAt p r)))"

definition countPrecommits :: "Process \<Rightarrow> Round \<Rightarrow> Value \<Rightarrow> int" where
  "countPrecommits p r v = int (length (filter (\<lambda>kv. PrecommitValue (snd kv) = v) (precommitsAt p r)))"

text \<open>
  Modelled from the spec: \<^verbatim>\<open>State.Reset\<close> of package proc, not among the sources. The
  commit rule P7 resets the lock and the valid value to \<^verbatim>\<open>(Nil, InvalidRound)\<close>, as
  \<^verbatim>\<open>State.Reset\<close> of \<^verbatim>\<open>src/process/state.go\<close> does with blocks in place of values.
\<close>

definition Reset :: "Process \<Rightarrow> Process" where
  "Reset p = p\<lparr>LockedValue := NilValue, LockedRound := InvalidRound,
               ValidValue := NilValue, ValidRound := InvalidRound\<rparr>"

section \<open>The two timeout conditions without callees\<close>

definition tryTimeoutPrevoteUponSufficientPrevotes :: "Process \<Rightarrow> Process" where
  "tryTimeoutPrevoteUponSufficientPrevotes p =
    (if checkOnceFlag p (CurrentRound p) OnceFlagTimeoutPrevoteUponSufficientPrevotes then p
     else if CurrentStep p \<noteq> Prevoting then p
     else
       let p1 = (if int (length (prevotesAt p (CurrentRound p))) = 2 * F p + 1
                 then emit (TimeoutPrevote (CurrentHeight p) (CurrentRound p)) p else p)
       in setOnceFlag (CurrentRound p1) OnceFlagTimeoutPrevoteUponSufficientPrevotes p1)"

definition tryTimeoutPrecommitUponSufficientPrecommits :: "Process \<Rightarrow> Process" where
  "tryTimeoutPrecommitUponSufficientPrecommits p =
    (if checkOnceFlag p (CurrentRound p) OnceFlagTimeoutPrecommitUponSufficientPrecommits then p
     else if int (length (precommitsAt p (CurrentRound p))) = 2 * F p + 1
     then setOnceFlag (CurrentRound p) OnceFlagTimeoutPrecommitUponSufficientPrecommits
            (emit (TimeoutPrecommit (CurrentHeight p) (CurrentRound p)) p)
     else p)"

section \<open>The mutually recursive conditions\<close>

text \<open>
  The prevote and precommit conditions and the two step changes call each other. The
  first argument bounds the depth of the call stack: a call that would exceed it gives
  \<open>None\<close>. Deferred calls run after the body, in reverse order of their \<^verbatim>\<open>defer\<close>.
\<close>

fun tryPrecommitUponSufficientPrevotes_fuel :: "nat \<Rightarrow> Process \<Rightarrow> Process option"
  and tryPrecommitNilUponSufficientPrevotes_fuel :: "nat \<Rightarrow> Process \<Rightarrow> Process option"
  and tryPrevoteUponPropose_fuel :: "nat \<Rightarrow> Process \<Rightarrow> Process option"
  and tryPrevoteUponSufficientPrevotes_fuel :: "nat \<Rightarrow> Process \<Rightarrow> Process option"
  and stepToPrevoting_fuel :: "nat \<Rightarrow> Process \<Rightarrow> Process option"
  and stepToPrecommitting_fuel :: "nat \<Rightarrow> Process \<Rightarrow> Process option"
where
  "tryPrecommitUponSufficientPrevotes_fuel 0 p = None"
| "tryPrecommitUponSufficientPrevotes_fuel (Suc n) p =
    (if checkOnceFlag p (CurrentRound p) OnceFlagPrecommitUponSufficientPrevotes then Some p
     else if stepOrd (CurrentStep p) < stepOrd Prevoting then Some p
     else case ProposeLogs p (CurrentRound p) of
       None \<Rightarrow> Some p
     | Some propose \<Rightarrow>
         if countPrevotes p (CurrentRound p) (ProposeValue propose) < 2 * F p + 1 then Some p
         else if CurrentStep p = Prevoting then
           (case stepToPrecommitting_fuel n
                   (emit (BroadcastPrecommit (CurrentHeight p) (CurrentRound p) (ProposeValue propose))
                      (p\<lparr>LockedValue := ProposeValue propose, LockedRound := CurrentRound p\<rparr>)) of
              None \<Rightarrow> None
            | Some p1 \<Rightarrow>
                (case tryPrevoteUponPropose_fuel n
                        (setOnceFlag (CurrentRound p1) OnceFlagPrecommitUponSufficientPrevotes
                           (p1\<lparr>ValidValue := ProposeValue propose, ValidRound := CurrentRound p1\<rparr>)) of
                   None \<Rightarrow> None
                 | Some p2 \<Rightarrow> tryPrevoteUponSufficientPrevotes_fuel n p2))
         else Some (setOnceFlag (CurrentRound p) OnceFlagPrecommitUponSufficientPrevotes
                      (p\<lparr>ValidValue := ProposeValue propose, ValidRound := CurrentRound p\<rparr>)))"
| "tryPrecommitNilUponSufficientPrevotes_fuel 0 p = None"
| "tryPrecommitNilUponSufficientPrevotes_fuel (Suc n) p =
    (if CurrentStep p \<noteq> Prevoting then Some p
     else if countPrevotes p (CurrentRound p) NilValue = 2 * F p + 1
     then stepToPrecommitting_fuel n
            (emit (BroadcastPrecommit (CurrentHeight p) (CurrentRound p) NilValue) p)
     else Some p)"
| "tryPrevoteUponPropose_fuel 0 p = None"
| "tryPrevoteUponPropose_fuel (Suc n) p =
    (if CurrentStep p \<noteq> Proposing then Some p
     else case ProposeLogs p (CurrentRound p) of
       None \<Rightarrow> Some p
     | Some propose \<Rightarrow>
         if ProposeValidRound propose \<noteq> InvalidRound then Some p
         else if LockedRound p = InvalidRound \<or> LockedValue p = ProposeValue propose
         then stepToPrevoting_fuel n
                (emit (BroadcastPrevote (CurrentHeight p) (CurrentRound p) (ProposeValue propose)) p)
         else stepToPrevoting_fuel n
                (emit (BroadcastPrevote (CurrentHeight p) (CurrentRound p) NilValue) p))"
| "tryPrevoteUponSufficientPrevotes_fuel 0 p = None"
| "tryPrevoteUponSufficientPrevotes_fuel (Suc n) p =
    (if CurrentStep p \<noteq> Proposing then Some p
     else case ProposeLogs p (CurrentRound p) of
       None \<Rightarrow> Some p
     | Some propose \<Rightarrow>
         if ProposeValidRound propose = InvalidRound \<or> ProposeValidRound propose \<ge> CurrentRound p
         then Some p
         else if countPrevotes p (ProposeValidRound propose) (ProposeValue propose) < 2 * F p + 1
         then Some p
         else if LockedRound p \<le> ProposeValidRound propose \<or> LockedValue p = ProposeValue propose
         then stepToPrevoting_fuel n
                (emit (BroadcastPrevote (CurrentHeight p) (CurrentRound p) (ProposeValue propose)) p)
         else stepToPrevoting_fuel n
                (emit (BroadcastPrevote (CurrentHeight p) (CurrentRound p) NilValue) p))"
| "stepToPrevoting_fuel 0 p = None"
| "stepToPrevoting_fuel (Suc n) p =
    (case tryPrecommitUponSufficientPrevotes_fuel n (p\<lparr>CurrentStep := Prevoting\<rparr>) of
       None \<Rightarrow> None
     | Some p1 \<Rightarrow>
         (case tryPrecommitNilUponSufficientPrevotes_fuel n p1 of
            None \<Rightarrow> None
          | Some p2 \<Rightarrow> Some (tryTimeoutPrevoteUponSufficientPrevotes p2)))"
| "stepToPrecommitting_fuel 0 p = None"
| "stepToPrecommitting_fuel (Suc n) p =
    tryPrecommitUponSufficientPrevotes_fuel n (p\<lparr>CurrentStep := Precommitting\<rparr>)"

text \<open>
  The call stack of the block above is never deeper than five frames
  (\<^verbatim>\<open>tryPrevoteUponPropose\<close>, \<^verbatim>\<open>stepToPrevoting\<close>, \<^verbatim>\<open>tryPrecommitUponSufficientPrevotes\<close>,
  \<^verbatim>\<open>stepToPrecommitting\<close>, \<^verbatim>\<open>tryPrecommitUponSufficientPrevotes\<close>): with that depth every
  one of the six functions returns, for every state, and a larger bound gives the same
  result (lemmas \<open>*_fuel_enough\<close> below). The functions of the source are the bounded
  ones at that depth.
\<close>

definition callDepth :: nat where
  "callDepth = 5"

definition tryPrecommitUponSufficientPrevotes :: "Process \<Rightarrow> Process" where
  "tryPrecommitUponSufficientPrevotes p = the (tryPrecommitUponSufficientPrevotes_fuel callDepth p)"

definition tryPrecommitNilUponSufficientPrevotes :: "Process \<Rightarrow> Process" where
  "tryPrecommitNilUponSufficientPrevotes p = the (tryPrecommitNilUponSufficientPrevotes_fuel callDepth p)"

definition tryPrevoteUponPropose :: "Process \<Rightarrow> Process" where
  "tryPrevoteUponPropose p = the (tryPrevoteUponPropose_fuel callDepth p)"

definition tryPrevoteUponSufficientPrevotes :: "Process \<Rightarrow> Process" where
  "tryPrevoteUponSufficientPrevotes p = the (tryPrevoteUponSufficientPrevotes_fuel callDepth p)"

definition stepToPrevoting :: "Process \<Rightarrow> Process" where
  "stepToPrevoting p = the (stepToPrevoting_fuel callDepth p)"

definition stepToPrecommitting :: "Process \<Rightarrow> Process" where
  "stepToPrecommitting p = the (stepToPrecommitting_fuel callDepth p)"

section \<open>Rounds, commits and skips\<close>

text \<open>
  \<^verbatim>\<open>StartRound\<close>: the deferred closure runs the six conditions, in the order written,
  after the body, on both return paths.
\<close>

definition StartRound :: "Round \<Rightarrow> Process \<Rightarrow> Process" where
  "StartRound round p =
    (let p1 = p\<lparr>CurrentRound := round, CurrentStep := Proposing\<rparr>;
         p2 = (if Whoami p1 \<noteq> scheduler p1 (CurrentHeight p1) (CurrentRound p1)
               then emit (TimeoutPropose (CurrentHeight p1) (CurrentRound p1)) p1
               else
                 let proposeValue =
                       (if ValidValue p1 = NilValue
                        then proposer p1 (CurrentHeight p1) (CurrentRound p1)
                        else ValidValue p1)
                 in emit (BroadcastPropose (CurrentHeight p1) (CurrentRound p1) proposeValue
                            (ValidRound p1)) p1)
     in tryTimeoutPrevoteUponSufficientPrevotes
          (tryTimeoutPrecommitUponSufficientPrecommits
             (tryPrevoteUponSufficientPrevotes
                (tryPrevoteUponPropose
                   (tryPrecommitNilUponSufficientPrevotes
                      (tryPrecommitUponSufficientPrevotes p2))))))"

definition Start :: "Process \<Rightarrow> Process" where
  "Start p = StartRound 0 p"

definition tryCommitUponSufficientPrecommits :: "Round \<Rightarrow> Process \<Rightarrow> Process" where
  "tryCommitUponSufficientPrecommits round p =
    (case ProposeLogs p round of
       None \<Rightarrow> p
     | Some propose \<Rightarrow>
         if countPrecommits p round (ProposeValue propose) = 2 * F p + 1
         then StartRound 0
                (Reset ((emit (Commit (CurrentHeight p) (ProposeValue propose)) p)
                   \<lparr>CurrentHeight := CurrentHeight p + 1,
                    ProposeLogs := Map.empty, PrevoteLogs := Map.empty,
                    PrecommitLogs := Map.empty, OnceFlags := Map.empty\<rparr>))
         else p)"

text \<open>The local \<^verbatim>\<open>msgsInRound\<close> of \<^verbatim>\<open>trySkipToFutureRound\<close>.\<close>

definition msgsInRound :: "Process \<Rightarrow> Round \<Rightarrow> int" where
  "msgsInRound p round =
     (if ProposeLogs p round \<noteq> None then 1 else 0)
     + int (length (prevotesAt p round)) + int (length (precommitsAt p round))"

definition trySkipToFutureRound :: "Round \<Rightarrow> Process \<Rightarrow> Process" where
  "trySkipToFutureRound round p =
    (if round \<le> CurrentRound p then p
     else if msgsInRound p round = F p + 1 then StartRound round p
     else p)"

section \<open>Message logs\<close>

text \<open>The insert functions return the flag together with the process.\<close>

definition insertPropose :: "Propose \<Rightarrow> Process \<Rightarrow> bool \<times> Process" where
  "insertPropose propose p =
    (if ProposeHeight propose \<noteq> CurrentHeight p then (False, p)
     else case ProposeLogs p (ProposeRound propose) of
       Some existingPropose \<Rightarrow>
         (False, if propose \<noteq> existingPropose
                 then emit (CatchDoublePropose propose existingPropose) p else p)
     | None \<Rightarrow>
         if scheduler p (ProposeHeight propose) (ProposeRound propose) \<noteq> ProposeFrom propose
         then (False, p)
         else if \<not> validator p (ProposeValue propose) then (False, p)
         else (True, p\<lparr>ProposeLogs := (ProposeLogs p)(ProposeRound propose \<mapsto> propose)\<rparr>))"

definition insertPrevote :: "Prevote \<Rightarrow> Process \<Rightarrow> bool \<times> Process" where
  "insertPrevote prevote p =
    (if PrevoteHeight prevote \<noteq> CurrentHeight p then (False, p)
     else
       let p1 = (if PrevoteLogs p (PrevoteRound prevote) = None
                 then p\<lparr>PrevoteLogs := (PrevoteLogs p)(PrevoteRound prevote \<mapsto> [])\<rparr> else p)
       in case map_of (prevotesAt p1 (PrevoteRound prevote)) (PrevoteFrom prevote) of
            Some existingPrevote \<Rightarrow>
              (False, if prevote \<noteq> existingPrevote
                      then emit (CatchDoublePrevote prevote existingPrevote) p1 else p1)
          | None \<Rightarrow>
              (True, p1\<lparr>PrevoteLogs := (PrevoteLogs p1)(PrevoteRound prevote \<mapsto>
                          AList.update (PrevoteFrom prevote) prevote
                            (prevotesAt p1 (PrevoteRound prevote)))\<rparr>))"

definition insertPrecommit :: "Precommit \<Rightarrow> Process \<Rightarrow> bool \<times> Process" where
  "insertPrecommit precommit p =
    (if PrecommitHeight precommit \<noteq> CurrentHeight p then (False, p)
     else
       let p1 = (if PrecommitLogs p (PrecommitRound precommit) = None
                 then p\<lparr>PrecommitLogs := (PrecommitLogs p)(PrecommitRound precommit \<mapsto> [])\<rparr> else p)
       in case map_of (precommitsAt p1 (PrecommitRound precommit)) (PrecommitFrom precommit) of
            Some existingPrecommit \<Rightarrow>
              (False, if precommit \<noteq> existingPrecommit
                      then emit (CatchDoublePrecommit precommit existingPrecommit) p1 else p1)
          | None \<Rightarrow>
              (True, p1\<lparr>PrecommitLogs := (PrecommitLogs p1)(PrecommitRound precommit \<mapsto>
                          AList.update (PrecommitFrom precommit) precommit
                            (precommitsAt p1 (PrecommitRound precommit)))\<rparr>))"

section \<open>Event entry points\<close>

definition ProposeEvent :: "Propose \<Rightarrow> Process \<Rightarrow> Process" where
  "ProposeEvent propose p =
    (case insertPropose propose p of
       (False, p1) \<Rightarrow> p1
     | (True, p1) \<Rightarrow>
         tryPrevoteUponSufficientPrevotes
           (tryPrevoteUponPropose
              (tryPrecommitUponSufficientPrevotes
                 (tryCommitUponSufficientPrecommits (ProposeRound propose)
                    (trySkipToFutureRound (ProposeRound propose) p1)))))"

definition PrevoteEvent :: "Prevote \<Rightarrow> Process \<Rightarrow> Process" where
  "PrevoteEvent prevote p =
    (case insertPrevote prevote p of
       (False, p1) \<Rightarrow> p1
     | (True, p1) \<Rightarrow>
         tryTimeoutPrevoteUponSufficientPrevotes
           (tryPrevoteUponSufficientPrevotes
              (tryPrecommitNilUponSufficientPrevotes
                 (tryPrecommitUponSufficientPrevotes
                    (trySkipToFutureRound (PrevoteRound prevote) p1)))))"

definition PrecommitEvent :: "Precommit \<Rightarrow> Process \<Rightarrow> Process" where
  "PrecommitEvent precommit p =
    (case insertPrecommit precommit p of
       (False, p1) \<Rightarrow> p1
     | (True, p1) \<Rightarrow>
         tryTimeoutPrecommitUponSufficientPrecommits
           (tryCommitUponSufficientPrecommits (PrecommitRound precommit)
              (trySkipToFutureRound (PrecommitRound precommit) p1)))"

definition OnTimeoutPropose :: "Height \<Rightarrow> Round \<Rightarrow> Process \<Rightarrow> Process" where
  "OnTimeoutPropose height round p =
    (if height = CurrentHeight p \<and> round = CurrentRound p \<and> CurrentStep p = Proposing
     then stepToPrevoting (emit (BroadcastPrevote (CurrentHeight p) (CurrentRound p) NilValue) p)
     else p)"

definition OnTimeoutPrevote :: "Height \<Rightarrow> Round \<Rightarrow> Process \<Rightarrow> Process" where
  "OnTimeoutPrevote height round p =
    (if height = CurrentHeight p \<and> round = CurrentRound p \<and> CurrentStep p = Prevoting
     then stepToPrecommitting (emit (BroadcastPrecommit (CurrentHeight p) (CurrentRound p) NilValue) p)
     else p)"

definition OnTimeoutPrecommit :: "Height \<Rightarrow> Round \<Rightarrow> Process \<Rightarrow> Process" where
  "OnTimeoutPrecommit height round p =
    (if height = CurrentHeight p \<and> round = CurrentRound p
     then StartRound (round + 1) p
     else p)"

section \<open>Auxiliary notions for the proofs\<close>

text \<open>
  The fields that the prevote and precommit conditions never write, and the elementary
  state changes these conditions are composed of.
\<close>

definition untouched ::
  "Process \<Rightarrow> Height \<times> Round \<times> (Height \<Rightarrow> Round \<Rightarrow> Pid) \<times> (Height \<Rightarrow> Round \<Rightarrow> Value) \<times> (Value \<Rightarrow> bool) \<times>
     (Round \<rightharpoonup> Propose) \<times> (Round \<rightharpoonup> (Pid \<times> Prevote) list) \<times> (Round \<rightharpoonup> (Pid \<times> Precommit) list) \<times> int \<times> Pid" where
  "untouched p = (CurrentHeight p, CurrentRound p, scheduler p, proposer p, validator p,
     ProposeLogs p, PrevoteLogs p, PrecommitLogs p, F p, Whoami p)"

inductive blockStep :: "Process \<Rightarrow> Process \<Rightarrow> bool" where
  bs_refl: "blockStep p p"
| bs_trans: "blockStep p q \<Longrightarrow> blockStep q r \<Longrightarrow> blockStep p r"
| bs_step: "s \<noteq> Proposing \<Longrightarrow> blockStep p (p\<lparr>CurrentStep := s\<rparr>)"
| bs_prevote: "blockStep p (emit (BroadcastPrevote (CurrentHeight p) (CurrentRound p) v) p)"
| bs_precommit: "blockStep p (emit (BroadcastPrecommit (CurrentHeight p) (CurrentRound p) v) p)"
| bs_timeout: "blockStep p (emit (TimeoutPrevote (CurrentHeight p) (CurrentRound p)) p)"
| bs_lock: "ProposeLogs p (CurrentRound p) = Some pr \<Longrightarrow>
     blockStep p (p\<lparr>LockedValue := ProposeValue pr, LockedRound := CurrentRound p\<rparr>)"
| bs_valid: "ProposeLogs p (CurrentRound p) = Some pr \<Longrightarrow>
     blockStep p (p\<lparr>ValidValue := ProposeValue pr, ValidRound := CurrentRound p\<rparr>)"
| bs_flag: "blockStep p (setOnceFlag r f p)"
| bs_timeout_precommit: "blockStep p (emit (TimeoutPrecommit (CurrentHeight p) (CurrentRound p)) p)"

text \<open>The state in which the body of \<^verbatim>\<open>StartRound\<close> returns, before the deferred calls.\<close>

definition startRoundHead :: "Round \<Rightarrow> Process \<Rightarrow> Process" where
  "startRoundHead round p =
     emit (if Whoami p \<noteq> scheduler p (CurrentHeight p) round
           then TimeoutPropose (CurrentHeight p) round
           else BroadcastPropose (CurrentHeight p) round
                  (if ValidValue p = NilValue then proposer p (CurrentHeight p) round
                   else ValidValue p)
                  (ValidRound p))
       (p\<lparr>CurrentRound := round, CurrentStep := Proposing\<rparr>)"

text \<open>The state a commit hands to \<^verbatim>\<open>StartRound(0)\<close>.\<close>

definition commitHead :: "Value \<Rightarrow> Process \<Rightarrow> Process" where
  "commitHead v p =
     Reset ((emit (Commit (CurrentHeight p) v) p)
       \<lparr>CurrentHeight := CurrentHeight p + 1,
        ProposeLogs := Map.empty, PrevoteLogs := Map.empty,
        PrecommitLogs := Map.empty, OnceFlags := Map.empty\<rparr>)"

text \<open>The fields that only a commit writes.\<close>

definition kept ::
  "Process \<Rightarrow> Height \<times> (Height \<Rightarrow> Round \<Rightarrow> Pid) \<times> (Height \<Rightarrow> Round \<Rightarrow> Value) \<times> (Value \<Rightarrow> bool) \<times>
     (Round \<rightharpoonup> Propose) \<times> (Round \<rightharpoonup> (Pid \<times> Prevote) list) \<times> (Round \<rightharpoonup> (Pid \<times> Precommit) list) \<times> int \<times> Pid" where
  "kept p = (CurrentHeight p, scheduler p, proposer p, validator p,
     ProposeLogs p, PrevoteLogs p, PrecommitLogs p, F p, Whoami p)"

text \<open>
  Kinds of effects: those the conditions within a round produce, and the reports to
  the catcher.
\<close>

fun roundEffect :: "Effect \<Rightarrow> bool" where
  "roundEffect (BroadcastPrevote h r v) = True"
| "roundEffect (BroadcastPrecommit h r v) = True"
| "roundEffect (TimeoutPrevote h r) = True"
| "roundEffect (TimeoutPrecommit h r) = True"
| "roundEffect e = False"

fun isCatch :: "Effect \<Rightarrow> bool" where
  "isCatch (CatchDoublePropose a b) = True"
| "isCatch (CatchDoublePrevote a b) = True"
| "isCatch (CatchDoublePrecommit a b) = True"
| "isCatch e = False"

text \<open>The effects a call added: those of the result beyond those of the argument.\<close>

definition newEffects :: "Process \<Rightarrow> Process \<Rightarrow> Effect list" where
  "newEffects p q = drop (length (effects p)) (effects q)"

text \<open>
  A broadcast propose is in order when the scheduler of the process names the process
  itself for its height and round.
\<close>

fun proposeInOrder :: "Process \<Rightarrow> Effect \<Rightarrow> bool" where
  "proposeInOrder p (BroadcastPropose h r v vr) = (scheduler p h r = Whoami p)"
| "proposeInOrder p e = True"

text \<open>
  \<open>extends p q\<close>: the process \<open>q\<close> has the scheduler and the identity of \<open>p\<close>, its
  effects are those of \<open>p\<close> followed by new ones, and every propose among the new ones
  is in order.
\<close>

definition extends :: "Process \<Rightarrow> Process \<Rightarrow> bool" where
  "extends p q =
     (scheduler q = scheduler p \<and> Whoami q = Whoami p \<and>
      take (length (effects p)) (effects q) = effects p \<and>
      list_all (proposeInOrder p) (newEffects p q))"

section \<open>Events and runs\<close>

text \<open>The calls the embedding application and the timer make on a process.\<close>

datatype Event =
    EvStart
  | EvStartRound Round
  | EvPropose Propose
  | EvPrevote Prevote
  | EvPrecommit Precommit
  | EvTimeoutPropose Height Round
  | EvTimeoutPrevote Height Round
  | EvTimeoutPrecommit Height Round

fun deliver :: "Event \<Rightarrow> Process \<Rightarrow> Process" where
  "deliver EvStart p = Start p"
| "deliver (EvStartRound r) p = StartRound r p"
| "deliver (EvPropose m) p = ProposeEvent m p"
| "deliver (EvPrevote m) p = PrevoteEvent m p"
| "deliver (EvPrecommit m) p = PrecommitEvent m p"
| "deliver (EvTimeoutPropose h r) p = OnTimeoutPropose h r p"
| "deliver (EvTimeoutPrevote h r) p = OnTimeoutPrevote h r p"
| "deliver (EvTimeoutPrecommit h r) p = OnTimeoutPrecommit h r p"

fun run :: "Process \<Rightarrow> Event list \<Rightarrow> Process" where
  "run p [] = p"
| "run p (e # es) = run (deliver e p) es"


text \<open>Lock coherence, and the invariant that carries it through a run.\<close>

definition coherent :: "Process \<Rightarrow> bool" where
  "coherent p =
     ((LockedRound p = InvalidRound) = (LockedValue p = NilValue) \<and>
      (ValidRound p = InvalidRound) = (ValidValue p = NilValue))"

definition lockInv :: "Process \<Rightarrow> bool" where
  "lockInv p =
     (coherent p \<and> 0 \<le> CurrentRound p \<and> \<not> validator p NilValue \<and>
      (\<forall>r pr. ProposeLogs p r = Some pr \<longrightarrow> validator p (ProposeValue pr)))"

text \<open>
  Modelled from the spec: the state in which a process is created, whose constructor is
  not among the sources. Section 3 (lifecycle) starts a process at height 1 with no lock
  and no valid value; \<^verbatim>\<open>DefaultState\<close> of \<^verbatim>\<open>src/process/state.go\<close> sets height 1, round 0,
  step propose and invalid lock and valid fields. The logs and once-flags are empty.
\<close>

definition DefaultProcess ::
  "Pid \<Rightarrow> int \<Rightarrow> (Height \<Rightarrow> Round \<Rightarrow> Pid) \<Rightarrow> (Height \<Rightarrow> Round \<Rightarrow> Value) \<Rightarrow> (Value \<Rightarrow> bool) \<Rightarrow> Process" where
  "DefaultProcess whoami f sched prop val =
     \<lparr>CurrentHeight = 1, CurrentRound = 0, CurrentStep = Proposing,
      LockedValue = NilValue, LockedRound = InvalidRound,
      ValidValue = NilValue, ValidRound = InvalidRound,
      scheduler = sched, proposer = prop, validator = val,
      ProposeLogs = Map.empty, PrevoteLogs = Map.empty, PrecommitLogs = Map.empty,
      F = f, OnceFlags = Map.empty, Whoami = whoami, effects = []\<rparr>"

text \<open>
  The process of the examples is participant 2 of four participants 0, 1, 2, 3 with
  \<open>f = 1\<close>; the scheduler is the round-robin of the reference implementation, the
  proposer always proposes 7, and every value except \<^verbatim>\<open>NilValue\<close> is valid.
\<close>

definition roundRobin :: "Height \<Rightarrow> Round \<Rightarrow> Pid" where
  "roundRobin h r = nat ((h + r) mod 4)"

definition exampleProcess :: Process where
  "exampleProcess = DefaultProcess 2 1 roundRobin (\<lambda>h r. 7) (\<lambda>v. v \<noteq> NilValue)"

section \<open>Example messages and runs\<close>

text \<open>Messages at height 1 with no valid round, as the scenarios of the specification use them.\<close>

definition examplePropose :: "Value \<Rightarrow> Round \<Rightarrow> Pid \<Rightarrow> Propose" where
  "examplePropose v r sender =
     \<lparr>ProposeHeight = 1, ProposeRound = r, ProposeValue = v, ProposeValidRound = InvalidRound,
      ProposeFrom = sender, ProposeSignature = 0\<rparr>"

definition examplePrevote :: "Value \<Rightarrow> Round \<Rightarrow> Pid \<Rightarrow> Prevote" where
  "examplePrevote v r sender =
     \<lparr>PrevoteHeight = 1, PrevoteRound = r, PrevoteValue = v, PrevoteFrom = sender,
      PrevoteSignature = 0\<rparr>"

definition examplePrecommit :: "Value \<Rightarrow> Round \<Rightarrow> Pid \<Rightarrow> Precommit" where
  "examplePrecommit v r sender =
     \<lparr>PrecommitHeight = 1, PrecommitRound = r, PrecommitValue = v, PrecommitFrom = sender,
      PrecommitSignature = 0\<rparr>"

text \<open>All four precommits for value 7 at round 0 arrive before the propose for 7.\<close>

definition precommitsFirst :: "Event list" where
  "precommitsFirst =
     [EvPrecommit (examplePrecommit 7 0 0), EvPrecommit (examplePrecommit 7 0 1),
      EvPrecommit (examplePrecommit 7 0 2), EvPrecommit (examplePrecommit 7 0 3),
      EvPropose (examplePropose 7 0 1)]"

text \<open>The propose of the scheduled proposer 1 at round 0, then one of participant 3.\<close>

definition proposeThenIntruder :: "Event list" where
  "proposeThenIntruder =
     [EvPropose (examplePropose 7 0 1), EvPropose (examplePropose 8 0 3)]"

text \<open>The propose timeout fires; then prevotes of three participants arrive.\<close>

definition timeoutThenPrevotes :: "Event list" where
  "timeoutThenPrevotes =
     [EvTimeoutPropose 1 0, EvPrevote (examplePrevote 7 0 0), EvPrevote (examplePrevote 8 0 1),
      EvPrevote (examplePrevote 9 0 3)]"

text \<open>
  The process reaches round 1 by a precommit timeout and logs two prevotes of round 1;
  it is started again, at round 0, and a third prevote of round 1 arrives.
\<close>

definition restartThenPrevote :: "Event list" where
  "restartThenPrevote =
     [EvTimeoutPrecommit 1 0, EvPrevote (examplePrevote 7 1 0), EvPrevote (examplePrevote 8 1 1),
      EvStart, EvPrevote (examplePrevote 9 1 3)]"



text \<open>The happy path of scenario S1, seen by participant 2.\<close>

definition happyPath :: "Event list" where
  "happyPath =
     [EvStart, EvPropose (examplePropose 7 0 1),
      EvPrevote (examplePrevote 7 0 0), EvPrevote (examplePrevote 7 0 1),
      EvPrevote (examplePrevote 7 0 2), EvPrevote (examplePrevote 7 0 3),
      EvPrecommit (examplePrecommit 7 0 0), EvPrecommit (examplePrecommit 7 0 1),
      EvPrecommit (examplePrecommit 7 0 2), EvPrecommit (examplePrecommit 7 0 3)]"

text \<open>
  Scenario S6: participant 2 at round 2, locked on value 7 since round 1; the scheduled
  proposer of round 2 is participant 3, who proposes 8.
\<close>

definition lockedProcess :: Process where
  "lockedProcess =
     exampleProcess\<lparr>CurrentRound := 2, LockedValue := 7, LockedRound := 1,
                    ValidValue := 7, ValidRound := 1\<rparr>"

text \<open>The same process with that propose in its log.\<close>

definition lockedProposed :: Process where
  "lockedProposed = snd (insertPropose (examplePropose 8 2 3) lockedProcess)"

text \<open>Participant 0 prevotes 7, then 8; the second prevote is delivered twice.\<close>

definition equivocation :: "Event list" where
  "equivocation =
     [EvPrevote (examplePrevote 7 0 0), EvPrevote (examplePrevote 8 0 0),
      EvPrevote (examplePrevote 8 0 0)]"

text \<open>
  What the examples look at: the state fields and the effects of a process, and, for
  a round \<open>r\<close> and a value \<open>v\<close>, the fault bound, the number of messages that
  \<^verbatim>\<open>trySkipToFutureRound\<close> counts at \<open>r\<close>, the value proposed at \<open>r\<close>, and the
  numbers of prevotes at \<open>r\<close>, of prevotes for \<open>v\<close> at \<open>r\<close>, of precommits at \<open>r\<close> and of
  precommits for \<open>v\<close> at \<open>r\<close>.
\<close>

definition observe ::
  "Process \<Rightarrow> Height \<times> Round \<times> Step \<times> (Value \<times> Round) \<times> (Value \<times> Round) \<times> Effect list" where
  "observe p =
     (CurrentHeight p, CurrentRound p, CurrentStep p, (LockedValue p, LockedRound p),
      (ValidValue p, ValidRound p), effects p)"

definition tally ::
  "Process \<Rightarrow> Round \<Rightarrow> Value \<Rightarrow> int \<times> int \<times> Value option \<times> int \<times> int \<times> int \<times> int" where
  "tally p r v =
     (F p, msgsInRound p r, map_option ProposeValue (ProposeLogs p r),
      int (length (prevotesAt p r)), countPrevotes p r v,
      int (length (precommitsAt p r)), countPrecommits p r v)"

definition snapshot ::
  "Process \<Rightarrow> Round \<Rightarrow> Value \<Rightarrow>
     (Height \<times> Round \<times> Step \<times> (Value \<times> Round) \<times> (Value \<times> Round) \<times> Effect list) \<times>
     (int \<times> int \<times> Value option \<times> int \<times> int \<times> int \<times> int)" where
  "snapshot p r v = (observe p, tally p r v)"

section \<open>Every call returns: the depth bound is enough\<close>

lemmas blk = tryPrecommitUponSufficientPrevotes_fuel.simps(2)
  tryPrecommitNilUponSufficientPrevotes_fuel.simps(2)
  tryPrevoteUponPropose_fuel.simps(2)
  tryPrevoteUponSufficientPrevotes_fuel.simps(2)
  stepToPrevoting_fuel.simps(2)
  stepToPrecommitting_fuel.simps(2)

declare blk [simp del]

lemma CurrentStep_setOnceFlag [simp]: "CurrentStep (setOnceFlag r f p) = CurrentStep p"
  by (simp add: setOnceFlag_def)

lemma CurrentStep_emit [simp]: "CurrentStep (emit e p) = CurrentStep p"
  by (simp add: emit_def)

lemma fuel_indep:
  assumes "\<And>n. f (g n) = f (g (0::nat))" and "f (g 0) \<noteq> None"
  shows "\<exists>q. \<forall>n. f (g n) = Some q"
  using assms by (metis option.exhaust)

lemma precommitUpon_leaf:
  assumes "CurrentStep p \<noteq> Prevoting"
  shows "\<exists>q. (\<forall>n. tryPrecommitUponSufficientPrevotes_fuel (Suc n) p = Some q) \<and> CurrentStep q = CurrentStep p"
proof -
  have eq: "tryPrecommitUponSufficientPrevotes_fuel (Suc n) p = tryPrecommitUponSufficientPrevotes_fuel (Suc 0) p" for n
    using assms by (simp add: blk(1) split: option.split)
  have "\<exists>q. tryPrecommitUponSufficientPrevotes_fuel (Suc 0) p = Some q \<and> CurrentStep q = CurrentStep p"
    using assms by (cases "ProposeLogs p (CurrentRound p)") (simp_all add: blk(1))
  with eq show ?thesis by metis
qed

lemma stepToPrecommitting_total:
  "\<exists>q. (\<forall>n. stepToPrecommitting_fuel (Suc (Suc n)) p = Some q) \<and> CurrentStep q = Precommitting"
  using precommitUpon_leaf [of "p\<lparr>CurrentStep := Precommitting\<rparr>"] by (simp add: blk(6))

lemma prevoteUponPropose_skip:
  "CurrentStep p \<noteq> Proposing \<Longrightarrow> tryPrevoteUponPropose_fuel (Suc n) p = Some p"
  by (simp add: blk(3))

lemma prevoteUponSufficient_skip:
  "CurrentStep p \<noteq> Proposing \<Longrightarrow> tryPrevoteUponSufficientPrevotes_fuel (Suc n) p = Some p"
  by (simp add: blk(4))

lemma precommitUpon_total:
  "\<exists>q. (\<forall>n. tryPrecommitUponSufficientPrevotes_fuel (Suc (Suc (Suc n))) p = Some q)"
proof (cases "CurrentStep p = Prevoting")
  case False
  then show ?thesis using precommitUpon_leaf [of p] by blast
next
  case True
  have st: "\<exists>q. (\<forall>n. stepToPrecommitting_fuel (Suc (Suc n)) (emit e r) = Some q) \<and> CurrentStep q = Precommitting" for e r
    by (rule stepToPrecommitting_total)
  show ?thesis
  proof (rule fuel_indep)
    fix n
    show "tryPrecommitUponSufficientPrevotes_fuel (Suc (Suc (Suc n))) p =
          tryPrecommitUponSufficientPrevotes_fuel (Suc (Suc (Suc 0))) p"
    proof (cases "ProposeLogs p (CurrentRound p)")
      case None
      then show ?thesis by (simp add: blk(1))
    next
      case (Some propose)
      obtain q where q: "\<And>n. stepToPrecommitting_fuel (Suc (Suc n)) (emit (BroadcastPrecommit (CurrentHeight p) (CurrentRound p) (ProposeValue propose))
                      (p\<lparr>LockedValue := ProposeValue propose, LockedRound := CurrentRound p\<rparr>)) = Some q" "CurrentStep q = Precommitting"
        using st by blast
      show ?thesis using Some q
        by (simp add: blk(1) [of "Suc (Suc m)" for m] prevoteUponPropose_skip prevoteUponSufficient_skip)
    qed
  next
    show "tryPrecommitUponSufficientPrevotes_fuel (Suc (Suc (Suc 0))) p \<noteq> None"
    proof (cases "ProposeLogs p (CurrentRound p)")
      case None
      then show ?thesis by (simp add: blk(1))
    next
      case (Some propose)
      obtain q where q: "\<And>n. stepToPrecommitting_fuel (Suc (Suc n)) (emit (BroadcastPrecommit (CurrentHeight p) (CurrentRound p) (ProposeValue propose))
                      (p\<lparr>LockedValue := ProposeValue propose, LockedRound := CurrentRound p\<rparr>)) = Some q" "CurrentStep q = Precommitting"
        using st by blast
      show ?thesis using Some q
        by (simp add: blk(1) [of "Suc (Suc m)" for m] prevoteUponPropose_skip prevoteUponSufficient_skip)
    qed
  qed
qed

lemma precommitNil_total:
  "\<exists>q. (\<forall>n. tryPrecommitNilUponSufficientPrevotes_fuel (Suc (Suc (Suc n))) p = Some q)"
proof -
  obtain q where q: "\<And>n. stepToPrecommitting_fuel (Suc (Suc n)) (emit (BroadcastPrecommit (CurrentHeight p) (CurrentRound p) NilValue) p) = Some q"
    using stepToPrecommitting_total by blast
  show ?thesis
    by (rule fuel_indep) (simp_all add: blk(2) q)
qed

lemma stepToPrevoting_total:
  "\<exists>q. (\<forall>n. stepToPrevoting_fuel (Suc (Suc (Suc (Suc n)))) p = Some q)"
proof -
  obtain q1 where q1: "\<And>n. tryPrecommitUponSufficientPrevotes_fuel (Suc (Suc (Suc n))) (p\<lparr>CurrentStep := Prevoting\<rparr>) = Some q1"
    using precommitUpon_total by blast
  obtain q2 where q2: "\<And>n. tryPrecommitNilUponSufficientPrevotes_fuel (Suc (Suc (Suc n))) q1 = Some q2"
    using precommitNil_total by blast
  show ?thesis by (simp add: blk(5) q1 q2)
qed

lemma prevoteUponPropose_total:
  "\<exists>q. (\<forall>n. tryPrevoteUponPropose_fuel (Suc (Suc (Suc (Suc (Suc n))))) p = Some q)"
proof -
  obtain q1 where q1: "\<And>n. stepToPrevoting_fuel (Suc (Suc (Suc (Suc n)))) (emit (BroadcastPrevote (CurrentHeight p) (CurrentRound p) NilValue) p) = Some q1"
    using stepToPrevoting_total by blast
  have q2: "\<exists>q. \<forall>n. stepToPrevoting_fuel (Suc (Suc (Suc (Suc n)))) (emit (BroadcastPrevote (CurrentHeight p) (CurrentRound p) v) p) = Some q" for v
    by (rule stepToPrevoting_total)
  show ?thesis
  proof (cases "ProposeLogs p (CurrentRound p)")
    case None
    then show ?thesis by (auto simp add: blk(3))
  next
    case (Some propose)
    obtain q3 where q3: "\<And>n. stepToPrevoting_fuel (Suc (Suc (Suc (Suc n)))) (emit (BroadcastPrevote (CurrentHeight p) (CurrentRound p) (ProposeValue propose)) p) = Some q3"
      using q2 by blast
    show ?thesis
      by (rule fuel_indep) (simp_all add: blk(3) Some q1 q3)
  qed
qed

lemma prevoteUponSufficient_total:
  "\<exists>q. (\<forall>n. tryPrevoteUponSufficientPrevotes_fuel (Suc (Suc (Suc (Suc (Suc n))))) p = Some q)"
proof -
  obtain q1 where q1: "\<And>n. stepToPrevoting_fuel (Suc (Suc (Suc (Suc n)))) (emit (BroadcastPrevote (CurrentHeight p) (CurrentRound p) NilValue) p) = Some q1"
    using stepToPrevoting_total by blast
  have q2: "\<exists>q. \<forall>n. stepToPrevoting_fuel (Suc (Suc (Suc (Suc n)))) (emit (BroadcastPrevote (CurrentHeight p) (CurrentRound p) v) p) = Some q" for v
    by (rule stepToPrevoting_total)
  show ?thesis
  proof (cases "ProposeLogs p (CurrentRound p)")
    case None
    then show ?thesis by (auto simp add: blk(4))
  next
    case (Some propose)
    obtain q3 where q3: "\<And>n. stepToPrevoting_fuel (Suc (Suc (Suc (Suc n)))) (emit (BroadcastPrevote (CurrentHeight p) (CurrentRound p) (ProposeValue propose)) p) = Some q3"
      using q2 by blast
    show ?thesis
      by (rule fuel_indep) (simp_all add: blk(4) Some q1 q3)
  qed
qed

lemma callDepth_plus: "callDepth + n = Suc (Suc (Suc (Suc (Suc n))))"
  by (simp add: callDepth_def)

lemma tryPrecommitUponSufficientPrevotes_fuel_enough:
  "tryPrecommitUponSufficientPrevotes_fuel (callDepth + n) p = Some (tryPrecommitUponSufficientPrevotes p)"
proof -
  obtain q where q: "\<And>n. tryPrecommitUponSufficientPrevotes_fuel (Suc (Suc (Suc n))) p = Some q"
    using precommitUpon_total by blast
  have "tryPrecommitUponSufficientPrevotes_fuel callDepth p = Some q"
    using q [of 2] by (simp add: callDepth_def numeral_eq_Suc)
  then show ?thesis
    using q [of "Suc (Suc n)"] by (simp add: tryPrecommitUponSufficientPrevotes_def callDepth_plus)
qed

lemma tryPrecommitNilUponSufficientPrevotes_fuel_enough:
  "tryPrecommitNilUponSufficientPrevotes_fuel (callDepth + n) p = Some (tryPrecommitNilUponSufficientPrevotes p)"
proof -
  obtain q where q: "\<And>n. tryPrecommitNilUponSufficientPrevotes_fuel (Suc (Suc (Suc n))) p = Some q"
    using precommitNil_total by blast
  have "tryPrecommitNilUponSufficientPrevotes_fuel callDepth p = Some q"
    using q [of 2] by (simp add: callDepth_def numeral_eq_Suc)
  then show ?thesis
    using q [of "Suc (Suc n)"] by (simp add: tryPrecommitNilUponSufficientPrevotes_def callDepth_plus)
qed

lemma tryPrevoteUponPropose_fuel_enough:
  "tryPrevoteUponPropose_fuel (callDepth + n) p = Some (tryPrevoteUponPropose p)"
proof -
  obtain q where q: "\<And>n. tryPrevoteUponPropose_fuel (Suc (Suc (Suc (Suc (Suc n))))) p = Some q"
    using prevoteUponPropose_total by blast
  have "tryPrevoteUponPropose_fuel callDepth p = Some q"
    using q [of 0] by (simp add: callDepth_def numeral_eq_Suc)
  then show ?thesis
    using q [of n] by (simp add: tryPrevoteUponPropose_def callDepth_plus)
qed

lemma tryPrevoteUponSufficientPrevotes_fuel_enough:
  "tryPrevoteUponSufficientPrevotes_fuel (callDepth + n) p = Some (tryPrevoteUponSufficientPrevotes p)"
proof -
  obtain q where q: "\<And>n. tryPrevoteUponSufficientPrevotes_fuel (Suc (Suc (Suc (Suc (Suc n))))) p = Some q"
    using prevoteUponSufficient_total by blast
  have "tryPrevoteUponSufficientPrevotes_fuel callDepth p = Some q"
    using q [of 0] by (simp add: callDepth_def numeral_eq_Suc)
  then show ?thesis
    using q [of n] by (simp add: tryPrevoteUponSufficientPrevotes_def callDepth_plus)
qed

lemma stepToPrevoting_fuel_enough:
  "stepToPrevoting_fuel (callDepth + n) p = Some (stepToPrevoting p)"
proof -
  obtain q where q: "\<And>n. stepToPrevoting_fuel (Suc (Suc (Suc (Suc n)))) p = Some q"
    using stepToPrevoting_total by blast
  have "stepToPrevoting_fuel callDepth p = Some q"
    using q [of 1] by (simp add: callDepth_def numeral_eq_Suc)
  then show ?thesis
    using q [of "Suc n"] by (simp add: stepToPrevoting_def callDepth_plus)
qed

lemma stepToPrecommitting_fuel_enough:
  "stepToPrecommitting_fuel (callDepth + n) p = Some (stepToPrecommitting p)"
proof -
  obtain q where q: "\<And>n. stepToPrecommitting_fuel (Suc (Suc n)) p = Some q"
    using stepToPrecommitting_total by blast
  have "stepToPrecommitting_fuel callDepth p = Some q"
    using q [of 3] by (simp add: callDepth_def numeral_eq_Suc)
  then show ?thesis
    using q [of "Suc (Suc (Suc n))"] by (simp add: stepToPrecommitting_def callDepth_plus)
qed

lemmas fuel_enough0 =
  tryPrecommitUponSufficientPrevotes_fuel_enough [of 0, simplified]
  tryPrecommitNilUponSufficientPrevotes_fuel_enough [of 0, simplified]
  tryPrevoteUponPropose_fuel_enough [of 0, simplified]
  tryPrevoteUponSufficientPrevotes_fuel_enough [of 0, simplified]
  stepToPrevoting_fuel_enough [of 0, simplified]
  stepToPrecommitting_fuel_enough [of 0, simplified]

lemmas fuel_enough1 =
  tryPrecommitUponSufficientPrevotes_fuel_enough [of 1, simplified]
  tryPrecommitNilUponSufficientPrevotes_fuel_enough [of 1, simplified]
  tryPrevoteUponPropose_fuel_enough [of 1, simplified]
  tryPrevoteUponSufficientPrevotes_fuel_enough [of 1, simplified]
  stepToPrevoting_fuel_enough [of 1, simplified]
  stepToPrecommitting_fuel_enough [of 1, simplified]

lemma stepToPrecommitting_eq:
  "stepToPrecommitting p = tryPrecommitUponSufficientPrevotes (p\<lparr>CurrentStep := Precommitting\<rparr>)"
  using fuel_enough1(6) [of p] by (simp add: blk(6) fuel_enough0)

lemma stepToPrevoting_eq:
  "stepToPrevoting p =
     tryTimeoutPrevoteUponSufficientPrevotes
       (tryPrecommitNilUponSufficientPrevotes
          (tryPrecommitUponSufficientPrevotes (p\<lparr>CurrentStep := Prevoting\<rparr>)))"
  using fuel_enough1(5) [of p] by (simp add: blk(5) fuel_enough0)

lemma tryPrevoteUponPropose_eq:
  "tryPrevoteUponPropose p =
    (if CurrentStep p \<noteq> Proposing then p
     else case ProposeLogs p (CurrentRound p) of
       None \<Rightarrow> p
     | Some propose \<Rightarrow>
         if ProposeValidRound propose \<noteq> InvalidRound then p
         else if LockedRound p = InvalidRound \<or> LockedValue p = ProposeValue propose
         then stepToPrevoting
                (emit (BroadcastPrevote (CurrentHeight p) (CurrentRound p) (ProposeValue propose)) p)
         else stepToPrevoting
                (emit (BroadcastPrevote (CurrentHeight p) (CurrentRound p) NilValue) p))"
  using fuel_enough1(3) [of p] by (auto simp add: blk(3) fuel_enough0 split: option.splits if_splits)

lemma tryPrevoteUponSufficientPrevotes_eq:
  "tryPrevoteUponSufficientPrevotes p =
    (if CurrentStep p \<noteq> Proposing then p
     else case ProposeLogs p (CurrentRound p) of
       None \<Rightarrow> p
     | Some propose \<Rightarrow>
         if ProposeValidRound propose = InvalidRound \<or> ProposeValidRound propose \<ge> CurrentRound p
         then p
         else if countPrevotes p (ProposeValidRound propose) (ProposeValue propose) < 2 * F p + 1
         then p
         else if LockedRound p \<le> ProposeValidRound propose \<or> LockedValue p = ProposeValue propose
         then stepToPrevoting
                (emit (BroadcastPrevote (CurrentHeight p) (CurrentRound p) (ProposeValue propose)) p)
         else stepToPrevoting
                (emit (BroadcastPrevote (CurrentHeight p) (CurrentRound p) NilValue) p))"
  using fuel_enough1(4) [of p] by (auto simp add: blk(4) fuel_enough0 split: option.splits if_splits)

lemma tryPrecommitNilUponSufficientPrevotes_eq:
  "tryPrecommitNilUponSufficientPrevotes p =
    (if CurrentStep p \<noteq> Prevoting then p
     else if countPrevotes p (CurrentRound p) NilValue = 2 * F p + 1
     then stepToPrecommitting
            (emit (BroadcastPrecommit (CurrentHeight p) (CurrentRound p) NilValue) p)
     else p)"
  using fuel_enough1(2) [of p] by (auto simp add: blk(2) fuel_enough0 split: option.splits if_splits)

lemma tryPrecommitUponSufficientPrevotes_eq:
  "tryPrecommitUponSufficientPrevotes p =
    (if checkOnceFlag p (CurrentRound p) OnceFlagPrecommitUponSufficientPrevotes then p
     else if stepOrd (CurrentStep p) < stepOrd Prevoting then p
     else case ProposeLogs p (CurrentRound p) of
       None \<Rightarrow> p
     | Some propose \<Rightarrow>
         if countPrevotes p (CurrentRound p) (ProposeValue propose) < 2 * F p + 1 then p
         else if CurrentStep p = Prevoting then
           (let p1 = stepToPrecommitting
                   (emit (BroadcastPrecommit (CurrentHeight p) (CurrentRound p) (ProposeValue propose))
                      (p\<lparr>LockedValue := ProposeValue propose, LockedRound := CurrentRound p\<rparr>));
                p2 = setOnceFlag (CurrentRound p1) OnceFlagPrecommitUponSufficientPrevotes
                           (p1\<lparr>ValidValue := ProposeValue propose, ValidRound := CurrentRound p1\<rparr>)
            in tryPrevoteUponSufficientPrevotes (tryPrevoteUponPropose p2))
         else setOnceFlag (CurrentRound p) OnceFlagPrecommitUponSufficientPrevotes
                      (p\<lparr>ValidValue := ProposeValue propose, ValidRound := CurrentRound p\<rparr>))"
  using fuel_enough1(1) [of p] by (auto simp add: blk(1) fuel_enough0 Let_def split: option.splits if_splits)

section \<open>The conditions as compositions of elementary changes\<close>

lemma blockStep_untouched: "blockStep p q \<Longrightarrow> untouched q = untouched p"
  by (induction rule: blockStep.induct) (simp_all add: untouched_def emit_def setOnceFlag_def)

lemma untouchedD:
  assumes "untouched q = untouched p"
  shows "CurrentHeight q = CurrentHeight p" "CurrentRound q = CurrentRound p"
    "scheduler q = scheduler p" "proposer q = proposer p" "validator q = validator p"
    "ProposeLogs q = ProposeLogs p" "PrevoteLogs q = PrevoteLogs p"
    "PrecommitLogs q = PrecommitLogs p" "F q = F p" "Whoami q = Whoami p"
  using assms by (simp_all add: untouched_def)

lemma tryTimeoutPrevote_blockStep: "blockStep p (tryTimeoutPrevoteUponSufficientPrevotes p)"
proof -
  have a: "blockStep p (setOnceFlag r f (emit (TimeoutPrevote (CurrentHeight p) (CurrentRound p)) p))" for r f
    by (rule bs_trans [OF bs_timeout bs_flag])
  show ?thesis
    unfolding tryTimeoutPrevoteUponSufficientPrevotes_def Let_def
    by (auto intro: bs_refl bs_flag a)
qed

lemma block_fuel_blockStep:
  "(\<forall>p q. tryPrecommitUponSufficientPrevotes_fuel n p = Some q \<longrightarrow> blockStep p q) \<and>
   (\<forall>p q. tryPrecommitNilUponSufficientPrevotes_fuel n p = Some q \<longrightarrow> blockStep p q) \<and>
   (\<forall>p q. tryPrevoteUponPropose_fuel n p = Some q \<longrightarrow> blockStep p q) \<and>
   (\<forall>p q. tryPrevoteUponSufficientPrevotes_fuel n p = Some q \<longrightarrow> blockStep p q) \<and>
   (\<forall>p q. stepToPrevoting_fuel n p = Some q \<longrightarrow> blockStep p q) \<and>
   (\<forall>p q. stepToPrecommitting_fuel n p = Some q \<longrightarrow> blockStep p q)"
proof (induction n)
  case 0
  show ?case by simp
next
  case (Suc n)
  then have ih:
    "\<And>p q. tryPrecommitUponSufficientPrevotes_fuel n p = Some q \<Longrightarrow> blockStep p q"
    "\<And>p q. tryPrecommitNilUponSufficientPrevotes_fuel n p = Some q \<Longrightarrow> blockStep p q"
    "\<And>p q. tryPrevoteUponPropose_fuel n p = Some q \<Longrightarrow> blockStep p q"
    "\<And>p q. tryPrevoteUponSufficientPrevotes_fuel n p = Some q \<Longrightarrow> blockStep p q"
    "\<And>p q. stepToPrevoting_fuel n p = Some q \<Longrightarrow> blockStep p q"
    "\<And>p q. stepToPrecommitting_fuel n p = Some q \<Longrightarrow> blockStep p q"
    by blast+
  have c6: "blockStep p q" if "stepToPrecommitting_fuel (Suc n) p = Some q" for p q
  proof -
    have "blockStep (p\<lparr>CurrentStep := Precommitting\<rparr>) q"
      using that by (simp add: blk(6) ih(1))
    then show ?thesis using bs_trans [OF bs_step [of Precommitting p]] by simp
  qed
  have c5: "blockStep p q" if "stepToPrevoting_fuel (Suc n) p = Some q" for p q
  proof -
    have "\<exists>p1 p2. tryPrecommitUponSufficientPrevotes_fuel n (p\<lparr>CurrentStep := Prevoting\<rparr>) = Some p1 \<and>
      tryPrecommitNilUponSufficientPrevotes_fuel n p1 = Some p2 \<and>
      q = tryTimeoutPrevoteUponSufficientPrevotes p2"
      using that by (simp add: blk(5) split: option.split_asm)
    then obtain p1 p2 where
      p1: "tryPrecommitUponSufficientPrevotes_fuel n (p\<lparr>CurrentStep := Prevoting\<rparr>) = Some p1" and
      p2: "tryPrecommitNilUponSufficientPrevotes_fuel n p1 = Some p2" and
      q: "q = tryTimeoutPrevoteUponSufficientPrevotes p2"
      by blast
    have "blockStep p (p\<lparr>CurrentStep := Prevoting\<rparr>)" by (rule bs_step) simp
    then have "blockStep p p1" by (rule bs_trans) (rule ih(1) [OF p1])
    then have "blockStep p p2" by (rule bs_trans) (rule ih(2) [OF p2])
    then show ?thesis unfolding q by (rule bs_trans) (rule tryTimeoutPrevote_blockStep)
  qed
  have c2: "blockStep p q" if "tryPrecommitNilUponSufficientPrevotes_fuel (Suc n) p = Some q" for p q
    using that bs_trans [OF bs_precommit ih(6)]
    by (auto simp add: blk(2) split: if_split_asm intro: bs_refl)
  have c3: "blockStep p q" if "tryPrevoteUponPropose_fuel (Suc n) p = Some q" for p q
    using that bs_trans [OF bs_prevote ih(5)]
    by (auto simp add: blk(3) split: if_split_asm option.split_asm intro: bs_refl)
  have c4: "blockStep p q" if "tryPrevoteUponSufficientPrevotes_fuel (Suc n) p = Some q" for p q
    using that bs_trans [OF bs_prevote ih(5)]
    by (auto simp add: blk(4) split: if_split_asm option.split_asm intro: bs_refl)
  have c1: "blockStep p q" if "tryPrecommitUponSufficientPrevotes_fuel (Suc n) p = Some q" for p q
  proof (cases "ProposeLogs p (CurrentRound p)")
    case None
    then show ?thesis using that by (auto simp add: blk(1) split: if_split_asm intro: bs_refl)
  next
    case (Some pr)
    let ?v = "ProposeValue pr"
    have val: "blockStep p (setOnceFlag (CurrentRound p) f (p\<lparr>ValidValue := ?v, ValidRound := CurrentRound p\<rparr>))" for f
      by (rule bs_trans [OF bs_valid [OF Some] bs_flag])
    show ?thesis
    proof (cases "\<not> checkOnceFlag p (CurrentRound p) OnceFlagPrecommitUponSufficientPrevotes \<and>
        \<not> countPrevotes p (CurrentRound p) ?v < 2 * F p + 1 \<and> CurrentStep p = Prevoting")
      case False
      then show ?thesis using that Some val
        by (auto simp add: blk(1) split: if_split_asm intro: bs_refl)
    next
      case True
      let ?a = "emit (BroadcastPrecommit (CurrentHeight p) (CurrentRound p) ?v)
                      (p\<lparr>LockedValue := ?v, LockedRound := CurrentRound p\<rparr>)"
      have "\<exists>p1 p2. stepToPrecommitting_fuel n ?a = Some p1 \<and>
          tryPrevoteUponPropose_fuel n (setOnceFlag (CurrentRound p1) OnceFlagPrecommitUponSufficientPrevotes
                           (p1\<lparr>ValidValue := ?v, ValidRound := CurrentRound p1\<rparr>)) = Some p2 \<and>
          tryPrevoteUponSufficientPrevotes_fuel n p2 = Some q"
        using that True Some by (simp add: blk(1) split: option.split_asm)
      then obtain p1 p2 where
        p1: "stepToPrecommitting_fuel n ?a = Some p1" and
        p2: "tryPrevoteUponPropose_fuel n (setOnceFlag (CurrentRound p1) OnceFlagPrecommitUponSufficientPrevotes
                           (p1\<lparr>ValidValue := ?v, ValidRound := CurrentRound p1\<rparr>)) = Some p2" and
        q: "tryPrevoteUponSufficientPrevotes_fuel n p2 = Some q"
        by blast
      have pa: "blockStep p ?a"
        using bs_trans [OF bs_lock [OF Some] bs_precommit] by simp
      have ap1: "blockStep ?a p1" by (rule ih(6) [OF p1])
      have pp1: "blockStep p p1" by (rule bs_trans [OF pa ap1])
      have "ProposeLogs p1 (CurrentRound p1) = Some pr"
        using untouchedD [OF blockStep_untouched [OF pp1]] Some by simp
      then have "blockStep p1 (setOnceFlag (CurrentRound p1) OnceFlagPrecommitUponSufficientPrevotes
                           (p1\<lparr>ValidValue := ?v, ValidRound := CurrentRound p1\<rparr>))"
        by (rule bs_trans [OF bs_valid bs_flag])
      from bs_trans [OF pp1 this] have "blockStep p p2"
        by (rule bs_trans) (rule ih(3) [OF p2])
      then show ?thesis by (rule bs_trans) (rule ih(4) [OF q])
    qed
  qed
  show ?case using c1 c2 c3 c4 c5 c6 by blast
qed

section \<open>Properties of the elementary changes\<close>

lemmas wrapper_blockStep =
  block_fuel_blockStep [of callDepth, THEN conjunct1, rule_format, OF fuel_enough0(1)]
  block_fuel_blockStep [of callDepth, THEN conjunct2, THEN conjunct1, rule_format, OF fuel_enough0(2)]
  block_fuel_blockStep [of callDepth, THEN conjunct2, THEN conjunct2, THEN conjunct1, rule_format, OF fuel_enough0(3)]
  block_fuel_blockStep [of callDepth, THEN conjunct2, THEN conjunct2, THEN conjunct2, THEN conjunct1, rule_format, OF fuel_enough0(4)]
  block_fuel_blockStep [of callDepth, THEN conjunct2, THEN conjunct2, THEN conjunct2, THEN conjunct2, THEN conjunct1, rule_format, OF fuel_enough0(5)]
  block_fuel_blockStep [of callDepth, THEN conjunct2, THEN conjunct2, THEN conjunct2, THEN conjunct2, THEN conjunct2, rule_format, OF fuel_enough0(6)]


lemma tryTimeoutPrecommit_blockStep: "blockStep p (tryTimeoutPrecommitUponSufficientPrecommits p)"
  unfolding tryTimeoutPrecommitUponSufficientPrecommits_def
  by (auto intro: bs_refl bs_trans [OF bs_timeout_precommit bs_flag])

lemma blockStep_effects:
  "blockStep p q \<Longrightarrow> \<exists>es. effects q = effects p @ es \<and> (\<forall>e\<in>set es. roundEffect e)"
proof (induction rule: blockStep.induct)
  case (bs_trans p q r)
  then obtain es1 es2 where "effects q = effects p @ es1" "\<forall>e\<in>set es1. roundEffect e"
    "effects r = effects q @ es2" "\<forall>e\<in>set es2. roundEffect e" by blast
  then have "effects r = effects p @ (es1 @ es2) \<and> (\<forall>e\<in>set (es1 @ es2). roundEffect e)" by auto
  then show ?case by blast
qed (simp_all add: emit_def setOnceFlag_def)

lemma blockStep_step:
  "blockStep p q \<Longrightarrow> CurrentStep p \<noteq> Proposing \<Longrightarrow> CurrentStep q \<noteq> Proposing"
  by (induction rule: blockStep.induct) (simp_all add: emit_def setOnceFlag_def)


lemma blockStep_kept: "blockStep p q \<Longrightarrow> kept q = kept p"
  using blockStep_untouched [of p q] by (simp add: untouched_def kept_def)


lemma retry_blockStep:
  "blockStep p (tryTimeoutPrevoteUponSufficientPrevotes
          (tryTimeoutPrecommitUponSufficientPrecommits
             (tryPrevoteUponSufficientPrevotes
                (tryPrevoteUponPropose
                   (tryPrecommitNilUponSufficientPrevotes
                      (tryPrecommitUponSufficientPrevotes p))))))"
  by (rule bs_trans [OF bs_trans [OF bs_trans [OF bs_trans [OF bs_trans
        [OF wrapper_blockStep(1) wrapper_blockStep(2)] wrapper_blockStep(3)] wrapper_blockStep(4)]
        tryTimeoutPrecommit_blockStep] tryTimeoutPrevote_blockStep])

lemma StartRound_head:
  "StartRound round p =
     tryTimeoutPrevoteUponSufficientPrevotes
          (tryTimeoutPrecommitUponSufficientPrecommits
             (tryPrevoteUponSufficientPrevotes
                (tryPrevoteUponPropose
                   (tryPrecommitNilUponSufficientPrevotes
                      (tryPrecommitUponSufficientPrevotes (startRoundHead round p))))))"
  by (simp add: StartRound_def startRoundHead_def Let_def emit_def)

lemma StartRound_blockStep: "blockStep (startRoundHead round p) (StartRound round p)"
  unfolding StartRound_head by (rule retry_blockStep)

lemma StartRound_untouched:
  "untouched (StartRound round p) = untouched (startRoundHead round p)"
  by (rule blockStep_untouched [OF StartRound_blockStep])

lemma StartRound_CurrentRound [simp]: "CurrentRound (StartRound round p) = round"
  using untouchedD(2) [OF StartRound_untouched [of round p]]
  by (simp add: startRoundHead_def emit_def)

lemma StartRound_kept [simp]: "kept (StartRound round p) = kept p"
  using blockStep_kept [OF StartRound_blockStep [of round p]]
  by (simp add: startRoundHead_def emit_def kept_def)


lemma StartRound_effects:
  "\<exists>es. effects (StartRound round p) = effects (startRoundHead round p) @ es \<and> (\<forall>e\<in>set es. roundEffect e)"
  by (rule blockStep_effects [OF StartRound_blockStep])

lemma tryCommit_cases:
  "tryCommitUponSufficientPrecommits round p = p \<or>
   (\<exists>pr. ProposeLogs p round = Some pr \<and>
      tryCommitUponSufficientPrecommits round p = StartRound 0 (commitHead (ProposeValue pr) p))"
  by (simp add: tryCommitUponSufficientPrecommits_def commitHead_def split: option.split)



lemma trySkip_cases:
  "trySkipToFutureRound round p = p \<or>
   (CurrentRound p < round \<and> trySkipToFutureRound round p = StartRound round p)"
  by (simp add: trySkipToFutureRound_def)


lemma trySkip_kept [simp]: "kept (trySkipToFutureRound round p) = kept p"
  using trySkip_cases [of round p] by auto


lemma lockInv_emit [simp]: "lockInv (emit e p) = lockInv p"
  by (simp add: lockInv_def coherent_def emit_def)












section \<open>Effects only grow, and proposes stay in order\<close>

lemma extends_iff:
  "extends p q \<longleftrightarrow>
     scheduler q = scheduler p \<and> Whoami q = Whoami p \<and>
     (\<exists>es. effects q = effects p @ es \<and> (\<forall>e\<in>set es. proposeInOrder p e))"
proof
  assume a: "extends p q"
  then have "effects q = effects p @ newEffects p q"
    by (metis append_take_drop_id extends_def newEffects_def)
  with a show "scheduler q = scheduler p \<and> Whoami q = Whoami p \<and>
     (\<exists>es. effects q = effects p @ es \<and> (\<forall>e\<in>set es. proposeInOrder p e))"
    by (auto simp add: extends_def list_all_iff)
next
  assume "scheduler q = scheduler p \<and> Whoami q = Whoami p \<and>
     (\<exists>es. effects q = effects p @ es \<and> (\<forall>e\<in>set es. proposeInOrder p e))"
  then show "extends p q"
    by (auto simp add: extends_def newEffects_def list_all_iff)
qed

lemma proposeInOrder_cong:
  "scheduler q = scheduler p \<Longrightarrow> Whoami q = Whoami p \<Longrightarrow> proposeInOrder q e = proposeInOrder p e"
  by (cases e) simp_all

lemma extends_refl [simp]: "extends p p"
  by (simp add: extends_iff)

lemma extends_trans: "extends p q \<Longrightarrow> extends q r \<Longrightarrow> extends p r"
proof -
  assume a: "extends p q" and b: "extends q r"
  from a obtain es1 where 1: "scheduler q = scheduler p" "Whoami q = Whoami p"
    "effects q = effects p @ es1" "\<forall>e\<in>set es1. proposeInOrder p e"
    by (auto simp add: extends_iff)
  from b obtain es2 where 2: "scheduler r = scheduler q" "Whoami r = Whoami q"
    "effects r = effects q @ es2" "\<forall>e\<in>set es2. proposeInOrder q e"
    by (auto simp add: extends_iff)
  have "\<forall>e\<in>set es2. proposeInOrder p e"
    using 2(4) proposeInOrder_cong [OF 1(1) 1(2)] by simp
  then have "effects r = effects p @ (es1 @ es2) \<and> (\<forall>e\<in>set (es1 @ es2). proposeInOrder p e)"
    using 1 2 by auto
  then show ?thesis unfolding extends_iff using 1 2 by metis
qed

lemma roundEffect_inOrder: "roundEffect e \<Longrightarrow> proposeInOrder p e"
  by (cases e) simp_all

lemma blockStep_extends: "blockStep p q \<Longrightarrow> extends p q"
  using blockStep_effects [of p q] untouchedD(3,10) [OF blockStep_untouched, of p q]
  by (auto simp add: extends_iff roundEffect_inOrder)

lemma extends_emit: "proposeInOrder p e \<Longrightarrow> extends p (emit e p)"
  by (simp add: extends_iff emit_def)

lemma startRoundHead_extends: "extends p (startRoundHead round p)"
  by (simp add: extends_iff startRoundHead_def emit_def)

lemma StartRound_extends: "extends p (StartRound round p)"
  by (rule extends_trans [OF startRoundHead_extends blockStep_extends [OF StartRound_blockStep]])

lemma commitHead_extends: "extends p (commitHead v p)"
  by (simp add: extends_iff commitHead_def Reset_def emit_def)

lemma tryCommit_extends: "extends p (tryCommitUponSufficientPrecommits round p)"
  using tryCommit_cases [of round p]
  by (auto intro: extends_trans [OF commitHead_extends StartRound_extends])

lemma trySkip_extends: "extends p (trySkipToFutureRound round p)"
  using trySkip_cases [of round p] by (auto simp add: StartRound_extends)

lemma insertPropose_extends: "extends p (snd (insertPropose m p))"
  by (auto simp add: insertPropose_def extends_iff emit_def split: option.split)

lemma insertPrevote_extends: "extends p (snd (insertPrevote m p))"
  by (auto simp add: insertPrevote_def Let_def extends_iff emit_def split: option.split)

lemma insertPrecommit_extends: "extends p (snd (insertPrecommit m p))"
  by (auto simp add: insertPrecommit_def Let_def extends_iff emit_def split: option.split)

lemmas wrapper_extends = wrapper_blockStep [THEN blockStep_extends]
  tryTimeoutPrevote_blockStep [THEN blockStep_extends]
  tryTimeoutPrecommit_blockStep [THEN blockStep_extends]

lemma extends_step: "extends p q \<Longrightarrow> extends q (f q) \<Longrightarrow> extends p (f q)"
  by (rule extends_trans)

lemma ProposeEvent_extends: "extends p (ProposeEvent m p)"
proof (cases "insertPropose m p")
  case (Pair ok p1)
  then have "extends p p1" using insertPropose_extends [of p m] by simp
  then show ?thesis
    unfolding ProposeEvent_def Pair
    by (cases ok) (simp_all add: extends_step trySkip_extends tryCommit_extends wrapper_extends)
qed

lemma PrevoteEvent_extends: "extends p (PrevoteEvent m p)"
proof (cases "insertPrevote m p")
  case (Pair ok p1)
  then have "extends p p1" using insertPrevote_extends [of p m] by simp
  then show ?thesis
    unfolding PrevoteEvent_def Pair
    by (cases ok) (simp_all add: extends_step trySkip_extends tryCommit_extends wrapper_extends)
qed

lemma PrecommitEvent_extends: "extends p (PrecommitEvent m p)"
proof (cases "insertPrecommit m p")
  case (Pair ok p1)
  then have "extends p p1" using insertPrecommit_extends [of p m] by simp
  then show ?thesis
    unfolding PrecommitEvent_def Pair
    by (cases ok) (simp_all add: extends_step trySkip_extends tryCommit_extends wrapper_extends)
qed

lemma OnTimeout_extends:
  "extends p (OnTimeoutPropose h r p)" "extends p (OnTimeoutPrevote h r p)"
  "extends p (OnTimeoutPrecommit h r p)"
  by (simp_all add: OnTimeoutPropose_def OnTimeoutPrevote_def OnTimeoutPrecommit_def
        StartRound_extends extends_step extends_emit wrapper_extends)

lemma deliver_extends: "extends p (deliver ev p)"
  by (cases ev)
     (simp_all add: Start_def StartRound_extends ProposeEvent_extends PrevoteEvent_extends
        PrecommitEvent_extends OnTimeout_extends)

lemma run_extends: "extends p (run p evs)"
proof (induction evs arbitrary: p)
  case Nil
  show ?case by simp
next
  case (Cons ev evs)
  show ?case using extends_trans [OF deliver_extends Cons.IH] by simp
qed

section \<open>What a commit leaves in place\<close>

lemma keptD:
  assumes "kept q = kept p"
  shows "CurrentHeight q = CurrentHeight p" "scheduler q = scheduler p"
    "validator q = validator p" "ProposeLogs q = ProposeLogs p"
    "PrevoteLogs q = PrevoteLogs p" "PrecommitLogs q = PrecommitLogs p"
  using assms by (simp_all add: kept_def)

lemma kept_logsAt:
  assumes "kept q = kept p"
  shows "prevotesAt q r = prevotesAt p r" "precommitsAt q r = precommitsAt p r"
  using keptD [OF assms] by (simp_all add: prevotesAt_def precommitsAt_def)

lemmas wrapper_kept = wrapper_blockStep [THEN blockStep_kept]
  tryTimeoutPrevote_blockStep [THEN blockStep_kept]
  tryTimeoutPrecommit_blockStep [THEN blockStep_kept]

lemma tryCommit_kept:
  "kept (tryCommitUponSufficientPrecommits round p) = kept p \<or>
   CurrentHeight (tryCommitUponSufficientPrecommits round p) = CurrentHeight p + 1"
proof -
  have "CurrentHeight (StartRound 0 (commitHead v p)) = CurrentHeight p + 1" for v
    using keptD(1) [OF StartRound_kept [of 0 "commitHead v p"]]
    by (simp add: commitHead_def Reset_def emit_def)
  then show ?thesis using tryCommit_cases [of round p] by auto
qed

section \<open>A second delivery of the same message\<close>

lemma insertPropose_accepted:
  "insertPropose m p = (True, p1) \<Longrightarrow>
     ProposeHeight m = CurrentHeight p1 \<and> ProposeLogs p1 (ProposeRound m) = Some m"
  by (auto simp add: insertPropose_def split: if_split_asm option.split_asm)

lemma insertPropose_dup:
  "ProposeLogs q (ProposeRound m) = Some m \<Longrightarrow> insertPropose m q = (False, q)"
  by (simp add: insertPropose_def)

lemma insertPropose_stale:
  "ProposeHeight m \<noteq> CurrentHeight q \<Longrightarrow> insertPropose m q = (False, q)"
  by (simp add: insertPropose_def)

lemma insertPropose_rejected:
  "insertPropose m p = (False, p1) \<Longrightarrow>
     \<exists>cs. (\<forall>c\<in>set cs. isCatch c) \<and> insertPropose m p1 = (False, p1\<lparr>effects := effects p1 @ cs\<rparr>)"
proof -
  assume a: "insertPropose m p = (False, p1)"
  have "p1 = p \<or> (\<exists>old. ProposeHeight m = CurrentHeight p \<and> ProposeLogs p (ProposeRound m) = Some old
      \<and> m \<noteq> old \<and> p1 = emit (CatchDoublePropose m old) p)"
    using a by (auto simp add: insertPropose_def split: if_split_asm option.split_asm)
  then show ?thesis
  proof
    assume "p1 = p"
    then have "insertPropose m p1 = (False, p1\<lparr>effects := effects p1 @ []\<rparr>)" using a by simp
    then show ?thesis by (intro exI [of _ "[]"]) simp
  next
    assume "\<exists>old. ProposeHeight m = CurrentHeight p \<and> ProposeLogs p (ProposeRound m) = Some old
      \<and> m \<noteq> old \<and> p1 = emit (CatchDoublePropose m old) p"
    then obtain old where o: "ProposeHeight m = CurrentHeight p" "ProposeLogs p (ProposeRound m) = Some old"
      "m \<noteq> old" "p1 = emit (CatchDoublePropose m old) p" by blast
    then have "insertPropose m p1 = (False, p1\<lparr>effects := effects p1 @ [CatchDoublePropose m old]\<rparr>)"
      by (simp add: insertPropose_def emit_def)
    then show ?thesis by (intro exI [of _ "[CatchDoublePropose m old]"]) simp
  qed
qed

lemma insertPrevote_accepted:
  "insertPrevote m p = (True, p1) \<Longrightarrow>
     PrevoteHeight m = CurrentHeight p1 \<and>
     map_of (prevotesAt p1 (PrevoteRound m)) (PrevoteFrom m) = Some m"
  by (auto simp add: insertPrevote_def Let_def prevotesAt_def update_conv'
      split: if_split_asm option.split_asm)

lemma insertPrevote_dup:
  "map_of (prevotesAt q (PrevoteRound m)) (PrevoteFrom m) = Some m \<Longrightarrow>
     insertPrevote m q = (False, q)"
  by (auto simp add: insertPrevote_def Let_def prevotesAt_def split: option.split_asm)

lemma insertPrevote_stale:
  "PrevoteHeight m \<noteq> CurrentHeight q \<Longrightarrow> insertPrevote m q = (False, q)"
  by (simp add: insertPrevote_def)

lemma insertPrevote_rejected:
  "insertPrevote m p = (False, p1) \<Longrightarrow>
     \<exists>cs. (\<forall>c\<in>set cs. isCatch c) \<and> insertPrevote m p1 = (False, p1\<lparr>effects := effects p1 @ cs\<rparr>)"
proof -
  assume a: "insertPrevote m p = (False, p1)"
  have "p1 = p \<or> (\<exists>old. PrevoteHeight m = CurrentHeight p \<and>
      map_of (prevotesAt p (PrevoteRound m)) (PrevoteFrom m) = Some old
      \<and> m \<noteq> old \<and> p1 = emit (CatchDoublePrevote m old) p)"
    using a by (auto simp add: insertPrevote_def Let_def prevotesAt_def split: if_split_asm option.split_asm)
  then show ?thesis
  proof
    assume "p1 = p"
    then have "insertPrevote m p1 = (False, p1\<lparr>effects := effects p1 @ []\<rparr>)" using a by simp
    then show ?thesis by (intro exI [of _ "[]"]) simp
  next
    assume "\<exists>old. PrevoteHeight m = CurrentHeight p \<and>
      map_of (prevotesAt p (PrevoteRound m)) (PrevoteFrom m) = Some old
      \<and> m \<noteq> old \<and> p1 = emit (CatchDoublePrevote m old) p"
    then obtain old where o: "PrevoteHeight m = CurrentHeight p"
      "map_of (prevotesAt p (PrevoteRound m)) (PrevoteFrom m) = Some old"
      "m \<noteq> old" "p1 = emit (CatchDoublePrevote m old) p" by blast
    then have "insertPrevote m p1 = (False, p1\<lparr>effects := effects p1 @ [CatchDoublePrevote m old]\<rparr>)"
      by (auto simp add: insertPrevote_def Let_def prevotesAt_def emit_def split: option.split_asm)
    then show ?thesis by (intro exI [of _ "[CatchDoublePrevote m old]"]) simp
  qed
qed

lemma insertPrecommit_accepted:
  "insertPrecommit m p = (True, p1) \<Longrightarrow>
     PrecommitHeight m = CurrentHeight p1 \<and>
     map_of (precommitsAt p1 (PrecommitRound m)) (PrecommitFrom m) = Some m"
  by (auto simp add: insertPrecommit_def Let_def precommitsAt_def update_conv'
      split: if_split_asm option.split_asm)

lemma insertPrecommit_dup:
  "map_of (precommitsAt q (PrecommitRound m)) (PrecommitFrom m) = Some m \<Longrightarrow>
     insertPrecommit m q = (False, q)"
  by (auto simp add: insertPrecommit_def Let_def precommitsAt_def split: option.split_asm)

lemma insertPrecommit_stale:
  "PrecommitHeight m \<noteq> CurrentHeight q \<Longrightarrow> insertPrecommit m q = (False, q)"
  by (simp add: insertPrecommit_def)

lemma insertPrecommit_rejected:
  "insertPrecommit m p = (False, p1) \<Longrightarrow>
     \<exists>cs. (\<forall>c\<in>set cs. isCatch c) \<and> insertPrecommit m p1 = (False, p1\<lparr>effects := effects p1 @ cs\<rparr>)"
proof -
  assume a: "insertPrecommit m p = (False, p1)"
  have "p1 = p \<or> (\<exists>old. PrecommitHeight m = CurrentHeight p \<and>
      map_of (precommitsAt p (PrecommitRound m)) (PrecommitFrom m) = Some old
      \<and> m \<noteq> old \<and> p1 = emit (CatchDoublePrecommit m old) p)"
    using a by (auto simp add: insertPrecommit_def Let_def precommitsAt_def split: if_split_asm option.split_asm)
  then show ?thesis
  proof
    assume "p1 = p"
    then have "insertPrecommit m p1 = (False, p1\<lparr>effects := effects p1 @ []\<rparr>)" using a by simp
    then show ?thesis by (intro exI [of _ "[]"]) simp
  next
    assume "\<exists>old. PrecommitHeight m = CurrentHeight p \<and>
      map_of (precommitsAt p (PrecommitRound m)) (PrecommitFrom m) = Some old
      \<and> m \<noteq> old \<and> p1 = emit (CatchDoublePrecommit m old) p"
    then obtain old where o: "PrecommitHeight m = CurrentHeight p"
      "map_of (precommitsAt p (PrecommitRound m)) (PrecommitFrom m) = Some old"
      "m \<noteq> old" "p1 = emit (CatchDoublePrecommit m old) p" by blast
    then have "insertPrecommit m p1 = (False, p1\<lparr>effects := effects p1 @ [CatchDoublePrecommit m old]\<rparr>)"
      by (auto simp add: insertPrecommit_def Let_def precommitsAt_def emit_def split: option.split_asm)
    then show ?thesis by (intro exI [of _ "[CatchDoublePrecommit m old]"]) simp
  qed
qed


lemma PrevoteEvent_twice:
  "\<not> fst (insertPrevote m (PrevoteEvent m p)) \<and>
   (\<exists>cs. (\<forall>c\<in>set cs. isCatch c) \<and>
     PrevoteEvent m (PrevoteEvent m p) =
       (PrevoteEvent m p)\<lparr>effects := effects (PrevoteEvent m p) @ cs\<rparr>)"
proof (cases "insertPrevote m p")
  case (Pair ok p1)
  show ?thesis
  proof (cases ok)
    case False
    then have q: "PrevoteEvent m p = p1" using Pair by (simp add: PrevoteEvent_def)
    have "insertPrevote m p = (False, p1)" using Pair False by simp
    from insertPrevote_rejected [OF this] obtain cs where "\<forall>c\<in>set cs. isCatch c"
      "insertPrevote m p1 = (False, p1\<lparr>effects := effects p1 @ cs\<rparr>)"
      by blast
    then show ?thesis unfolding q
      by (intro conjI exI [of _ cs]) (simp_all add: PrevoteEvent_def)
  next
    case True
    let ?q = "PrevoteEvent m p"
    have "kept ?q = kept p1"
      using Pair True by (simp add: PrevoteEvent_def wrapper_kept)
    from kept_logsAt(1) [OF this] have "map_of (prevotesAt ?q (PrevoteRound m)) (PrevoteFrom m) = Some m"
      using insertPrevote_accepted [of m p p1] Pair True by simp
    then have i: "insertPrevote m ?q = (False, ?q)"
      by (rule insertPrevote_dup)
    then have "PrevoteEvent m ?q = ?q"
      by (simp add: PrevoteEvent_def [of m ?q])
    with i show ?thesis by (intro conjI exI [of _ "[]"]) simp_all
  qed
qed

lemma PrecommitEvent_twice:
  "\<not> fst (insertPrecommit m (PrecommitEvent m p)) \<and>
   (\<exists>cs. (\<forall>c\<in>set cs. isCatch c) \<and>
     PrecommitEvent m (PrecommitEvent m p) =
       (PrecommitEvent m p)\<lparr>effects := effects (PrecommitEvent m p) @ cs\<rparr>)"
proof (cases "insertPrecommit m p")
  case (Pair ok p1)
  show ?thesis
  proof (cases ok)
    case False
    then have q: "PrecommitEvent m p = p1" using Pair by (simp add: PrecommitEvent_def)
    have "insertPrecommit m p = (False, p1)" using Pair False by simp
    from insertPrecommit_rejected [OF this] obtain cs where "\<forall>c\<in>set cs. isCatch c"
      "insertPrecommit m p1 = (False, p1\<lparr>effects := effects p1 @ cs\<rparr>)"
      by blast
    then show ?thesis unfolding q
      by (intro conjI exI [of _ cs]) (simp_all add: PrecommitEvent_def)
  next
    case True
    let ?q = "PrecommitEvent m p"
    let ?s = "trySkipToFutureRound (PrecommitRound m) p1"
    have acc: "PrecommitHeight m = CurrentHeight p1"
      "map_of (precommitsAt p1 (PrecommitRound m)) (PrecommitFrom m) = Some m"
      using insertPrecommit_accepted [of m p p1] Pair True by simp_all
    have q: "?q = tryTimeoutPrecommitUponSufficientPrecommits
        (tryCommitUponSufficientPrecommits (PrecommitRound m) ?s)"
      using Pair True by (simp add: PrecommitEvent_def)
    have "kept ?q = kept p1 \<or> CurrentHeight ?q = CurrentHeight p1 + 1"
      using tryCommit_kept [of "PrecommitRound m" ?s] keptD(1) [OF trySkip_kept [of "PrecommitRound m" p1]]
        keptD(1) [OF wrapper_kept(8), of "tryCommitUponSufficientPrecommits (PrecommitRound m) ?s"]
      unfolding q by (auto simp add: wrapper_kept)
    then have i: "insertPrecommit m ?q = (False, ?q)"
    proof
      assume "kept ?q = kept p1"
      from kept_logsAt(2) [OF this] show ?thesis using acc by (simp add: insertPrecommit_dup)
    next
      assume "CurrentHeight ?q = CurrentHeight p1 + 1"
      then show ?thesis using acc by (simp add: insertPrecommit_stale)
    qed
    then have "PrecommitEvent m ?q = ?q"
      by (simp add: PrecommitEvent_def [of m ?q])
    with i show ?thesis by (intro conjI exI [of _ "[]"]) simp_all
  qed
qed

lemma ProposeEvent_twice:
  "\<not> fst (insertPropose m (ProposeEvent m p)) \<and>
   (\<exists>cs. (\<forall>c\<in>set cs. isCatch c) \<and>
     ProposeEvent m (ProposeEvent m p) =
       (ProposeEvent m p)\<lparr>effects := effects (ProposeEvent m p) @ cs\<rparr>)"
proof (cases "insertPropose m p")
  case (Pair ok p1)
  show ?thesis
  proof (cases ok)
    case False
    then have q: "ProposeEvent m p = p1" using Pair by (simp add: ProposeEvent_def)
    have "insertPropose m p = (False, p1)" using Pair False by simp
    from insertPropose_rejected [OF this] obtain cs where "\<forall>c\<in>set cs. isCatch c"
      "insertPropose m p1 = (False, p1\<lparr>effects := effects p1 @ cs\<rparr>)"
      by blast
    then show ?thesis unfolding q
      by (intro conjI exI [of _ cs]) (simp_all add: ProposeEvent_def)
  next
    case True
    let ?q = "ProposeEvent m p"
    let ?s = "trySkipToFutureRound (ProposeRound m) p1"
    let ?c = "tryCommitUponSufficientPrecommits (ProposeRound m) ?s"
    have acc: "ProposeHeight m = CurrentHeight p1" "ProposeLogs p1 (ProposeRound m) = Some m"
      using insertPropose_accepted [of m p p1] Pair True by simp_all
    have q: "?q = tryPrevoteUponSufficientPrevotes
        (tryPrevoteUponPropose (tryPrecommitUponSufficientPrevotes ?c))"
      using Pair True by (simp add: ProposeEvent_def)
    have "kept ?q = kept ?c" unfolding q by (simp add: wrapper_kept)
    then have "kept ?q = kept p1 \<or> CurrentHeight ?q = CurrentHeight p1 + 1"
      using tryCommit_kept [of "ProposeRound m" ?s] keptD(1) [OF trySkip_kept [of "ProposeRound m" p1]]
        keptD(1) [of ?q ?c]
      by auto
    then have i: "insertPropose m ?q = (False, ?q)"
    proof
      assume "kept ?q = kept p1"
      then show ?thesis using acc keptD(4) [of ?q p1] by (simp add: insertPropose_dup)
    next
      assume "CurrentHeight ?q = CurrentHeight p1 + 1"
      then show ?thesis using acc by (simp add: insertPropose_stale)
    qed
    then have "ProposeEvent m ?q = ?q"
      by (simp add: ProposeEvent_def [of m ?q])
    with i show ?thesis by (intro conjI exI [of _ "[]"]) simp_all
  qed
qed

lemma stepToPrevoting_blockStep:
  "blockStep (p\<lparr>CurrentStep := Prevoting\<rparr>) (stepToPrevoting p)"
  unfolding stepToPrevoting_eq
  by (rule bs_trans [OF bs_trans [OF wrapper_blockStep(1) wrapper_blockStep(2)]
        tryTimeoutPrevote_blockStep])

section \<open>Timeouts that do not match the current height, round and step\<close>

text \<open>
  Claim C9. \<^verbatim>\<open>OnTimeoutPropose\<close>, \<^verbatim>\<open>OnTimeoutPrevote\<close> and \<^verbatim>\<open>OnTimeoutPrecommit\<close>
  called with a height or a round other than the current one (or, for the first two,
  in a step other than Proposing resp. Prevoting) return the process as it was: no
  field changes, and nothing is added to the effects (no broadcast, timer request,
  commit or catcher call).
\<close>

theorem timeouts_mismatch_unchanged:
  "(height \<noteq> CurrentHeight p \<or> round \<noteq> CurrentRound p \<or> CurrentStep p \<noteq> Proposing
      \<longrightarrow> OnTimeoutPropose height round p = p) \<and>
   (height \<noteq> CurrentHeight p \<or> round \<noteq> CurrentRound p \<or> CurrentStep p \<noteq> Prevoting
      \<longrightarrow> OnTimeoutPrevote height round p = p) \<and>
   (height \<noteq> CurrentHeight p \<or> round \<noteq> CurrentRound p
      \<longrightarrow> OnTimeoutPrecommit height round p = p)"
  by (auto simp add: OnTimeoutPropose_def OnTimeoutPrevote_def OnTimeoutPrecommit_def)

theorem timeouts_mismatch_unchanged_witness:
  "CurrentHeight exampleProcess \<noteq> 2 \<and> CurrentStep exampleProcess \<noteq> Prevoting \<and>
   OnTimeoutPropose 2 0 exampleProcess = exampleProcess \<and>
   OnTimeoutPrevote 1 0 exampleProcess = exampleProcess \<and>
   OnTimeoutPrecommit 2 0 exampleProcess = exampleProcess"
proof -
  have h: "CurrentHeight exampleProcess \<noteq> 2"
    by (simp add: exampleProcess_def DefaultProcess_def)
  have s: "CurrentStep exampleProcess \<noteq> Prevoting"
    by (simp add: exampleProcess_def DefaultProcess_def)
  show ?thesis
    using h s timeouts_mismatch_unchanged [of 2 exampleProcess 0]
      timeouts_mismatch_unchanged [of 1 exampleProcess 0]
    by simp
qed

section \<open>Commit upon sufficient precommits\<close>

text \<open>
  Claim C1. For every round \<open>r\<close> whose propose log holds a propose with value \<open>v\<close> and
  whose precommit log holds at least \<open>2f+1\<close> precommits for \<open>v\<close>, reached by any
  propose or precommit event, the process commits \<open>(h, v)\<close>, moves to height \<open>h+1\<close>,
  empties its logs and once-flags, resets lock and valid value, and starts round 0.

  \<^verbatim>\<open>tryCommitUponSufficientPrecommits\<close> compares the count with \<^verbatim>\<open>2*F+1\<close> by \<^verbatim>\<open>==\<close>.
  When the four precommits of a round reach participant 2 (\<open>f = 1\<close>) before the propose,
  the check that runs with the propose finds 4 precommits, not 3: the process stays at
  height 1, nothing is committed, and its only effects are the precommit timeout
  request (made at the third precommit) and its own prevote.
\<close>

theorem commit_missed_when_precommits_come_first:
  "snapshot (run exampleProcess precommitsFirst) 0 7 =
     ((1, 0, Prevoting, (NilValue, InvalidRound), (NilValue, InvalidRound),
       [TimeoutPrecommit 1 0, BroadcastPrevote 1 0 7]),
      (1, 5, Some 7, 0, 0, 4, 4))"
  by code_simp

text \<open>What the function does: it commits at exactly \<open>2f+1\<close> matching precommits, and only then.\<close>

lemma tryCommit_exactly:
  assumes "ProposeLogs p round = Some propose"
  shows "tryCommitUponSufficientPrecommits round p =
          (if countPrecommits p round (ProposeValue propose) = 2 * F p + 1
           then StartRound 0 (commitHead (ProposeValue propose) p) else p)"
  using assms by (simp add: tryCommitUponSufficientPrecommits_def commitHead_def)

section \<open>Prevote upon a propose without valid round\<close>

text \<open>
  Claim C2. Whenever the process is in step Proposing at height \<open>h\<close> and round \<open>r\<close> and
  the propose log of \<open>r\<close> holds a propose with value \<open>v\<close> and valid round
  \<^verbatim>\<open>InvalidRound\<close>, \<^verbatim>\<open>tryPrevoteUponPropose\<close> broadcasts \<^verbatim>\<open>Prevote(h, r, v)\<close> if the locked
  round is \<^verbatim>\<open>InvalidRound\<close> or the locked value is \<open>v\<close>, and \<^verbatim>\<open>Prevote(h, r, Nil)\<close>
  otherwise, and in both cases moves to step Prevoting: the prevote is the first
  effect added, the conditions that \<^verbatim>\<open>stepToPrevoting\<close> tries next run on the state
  with step Prevoting and add prevotes, precommits and timeout requests only, and the
  process has left step Proposing for good, at the same height and round. In
  particular (scenario S6) a process locked on 7 since round 1 that receives a propose
  for 8 at round 2 prevotes nil.
\<close>

theorem prevote_upon_propose:
  assumes "CurrentStep p = Proposing"
    and "ProposeLogs p (CurrentRound p) = Some propose"
    and "ProposeValidRound propose = InvalidRound"
  shows "\<exists>es.
    tryPrevoteUponPropose p =
      tryTimeoutPrevoteUponSufficientPrevotes
        (tryPrecommitNilUponSufficientPrevotes
           (tryPrecommitUponSufficientPrevotes
              ((emit (BroadcastPrevote (CurrentHeight p) (CurrentRound p)
                        (if LockedRound p = InvalidRound \<or> LockedValue p = ProposeValue propose
                         then ProposeValue propose else NilValue)) p)
               \<lparr>CurrentStep := Prevoting\<rparr>))) \<and>
    effects (tryPrevoteUponPropose p) =
      effects p @
      BroadcastPrevote (CurrentHeight p) (CurrentRound p)
        (if LockedRound p = InvalidRound \<or> LockedValue p = ProposeValue propose
         then ProposeValue propose else NilValue) # es \<and>
    (\<forall>e\<in>set es. roundEffect e) \<and>
    CurrentStep (tryPrevoteUponPropose p) \<noteq> Proposing \<and>
    CurrentRound (tryPrevoteUponPropose p) = CurrentRound p \<and>
    CurrentHeight (tryPrevoteUponPropose p) = CurrentHeight p"
proof -
  let ?v = "if LockedRound p = InvalidRound \<or> LockedValue p = ProposeValue propose
            then ProposeValue propose else NilValue"
  let ?b = "emit (BroadcastPrevote (CurrentHeight p) (CurrentRound p) ?v) p"
  have eq: "tryPrevoteUponPropose p = stepToPrevoting ?b"
    using assms by (simp add: tryPrevoteUponPropose_eq [of p])
  have bs: "blockStep (?b\<lparr>CurrentStep := Prevoting\<rparr>) (tryPrevoteUponPropose p)"
    unfolding eq by (rule stepToPrevoting_blockStep)
  from blockStep_effects [OF bs] obtain es where
    es: "effects (tryPrevoteUponPropose p) = effects (?b\<lparr>CurrentStep := Prevoting\<rparr>) @ es"
      "\<forall>e\<in>set es. roundEffect e"
    by blast
  have st: "CurrentStep (tryPrevoteUponPropose p) \<noteq> Proposing"
    by (rule blockStep_step [OF bs]) simp
  have un: "CurrentRound (tryPrevoteUponPropose p) = CurrentRound p"
      "CurrentHeight (tryPrevoteUponPropose p) = CurrentHeight p"
    using untouchedD(1,2) [OF blockStep_untouched [OF bs]] by (simp_all add: emit_def)
  have "effects (tryPrevoteUponPropose p) =
      effects p @ BroadcastPrevote (CurrentHeight p) (CurrentRound p) ?v # es"
    using es(1) by (simp add: emit_def)
  with es(2) st un eq show ?thesis
    unfolding stepToPrevoting_eq by blast
qed

theorem prevote_upon_propose_witness:
  "CurrentStep lockedProposed = Proposing \<and>
   ProposeLogs lockedProposed (CurrentRound lockedProposed) = Some (examplePropose 8 2 3) \<and>
   (LockedValue lockedProposed, LockedRound lockedProposed) = (7, 1) \<and>
   (\<exists>es. effects (tryPrevoteUponPropose lockedProposed) = BroadcastPrevote 1 2 NilValue # es) \<and>
   observe (ProposeEvent (examplePropose 8 2 3) lockedProcess) =
     (1, 2, Prevoting, (7, 1), (7, 1), [BroadcastPrevote 1 2 NilValue])"
proof -
  have h1: "CurrentStep lockedProposed = Proposing" by code_simp
  have h2: "ProposeLogs lockedProposed (CurrentRound lockedProposed) = Some (examplePropose 8 2 3)"
    by code_simp
  have h3: "ProposeValidRound (examplePropose 8 2 3) = InvalidRound" by code_simp
  have f: "CurrentHeight lockedProposed = 1" "CurrentRound lockedProposed = 2"
    "LockedValue lockedProposed = 7" "LockedRound lockedProposed = 1"
    "effects lockedProposed = []" "ProposeValue (examplePropose 8 2 3) = 8"
    by code_simp+
  have ev: "observe (ProposeEvent (examplePropose 8 2 3) lockedProcess) =
     (1, 2, Prevoting, (7, 1), (7, 1), [BroadcastPrevote 1 2 NilValue])"
    by code_simp
  from prevote_upon_propose [OF h1 h2 h3]
  have "\<exists>es. effects (tryPrevoteUponPropose lockedProposed) = BroadcastPrevote 1 2 NilValue # es"
    by (auto simp add: f InvalidRound_def)
  with h1 h2 f ev show ?thesis by simp
qed

section \<open>Inserting a propose\<close>

text \<open>
  Claim C3. A propose at the current height is stored exactly when no entry exists at
  its round, its sender is the scheduled proposer and its value is valid; an identical
  entry is dropped without report; \<^verbatim>\<open>CatchDoublePropose\<close> is called only for two differing
  proposes of the same participant; a propose of a sender that is not the scheduled
  proposer, or with an invalid value, is rejected without any catcher call.

  \<^verbatim>\<open>insertPropose\<close> looks at the existing entry before it looks at the sender. With the
  propose of the scheduled proposer 1 in the log of round 0, a different propose from
  participant 3 for the same round is reported to the catcher together with the
  propose of participant 1.
\<close>

theorem catcher_called_for_other_sender:
  "scheduler exampleProcess 1 0 = 1 \<and>
   effects (run exampleProcess proposeThenIntruder) =
     [BroadcastPrevote 1 0 7,
      CatchDoublePropose (examplePropose 8 0 3) (examplePropose 7 0 1)]"
  by code_simp

text \<open>
  What the function does: with an entry at the round, any differing propose of the
  current height is reported, whoever sent it; without one, the propose is stored
  exactly when its sender is scheduled and its value valid, and nothing is reported.
\<close>

lemma insertPropose_existing:
  assumes "ProposeHeight m = CurrentHeight p" and "ProposeLogs p (ProposeRound m) = Some old"
  shows "insertPropose m p = (False, if m \<noteq> old then emit (CatchDoublePropose m old) p else p)"
  using assms by (simp add: insertPropose_def)

lemma insertPropose_fresh:
  assumes "ProposeHeight m = CurrentHeight p" and "ProposeLogs p (ProposeRound m) = None"
  shows "insertPropose m p =
          (if scheduler p (ProposeHeight m) (ProposeRound m) = ProposeFrom m \<and> validator p (ProposeValue m)
           then (True, p\<lparr>ProposeLogs := (ProposeLogs p)(ProposeRound m \<mapsto> m)\<rparr>)
           else (False, p))"
  using assms by (simp add: insertPropose_def)

section \<open>The prevote timeout\<close>

text \<open>
  Claim C4. Whenever the process is in step Prevoting and the prevote log of the
  current round holds at least \<open>2f+1\<close> prevotes, it requests
  \<^verbatim>\<open>TimeoutPrevote(currentHeight, currentRound)\<close>, at most once per round, the once-flag
  being set when the request is made.

  \<^verbatim>\<open>tryTimeoutPrevoteUponSufficientPrevotes\<close> sets the once-flag on every call made in
  step Prevoting, whether or not it made the request, and makes the request only when
  the log holds exactly \<^verbatim>\<open>2*F+1\<close> prevotes. After the propose timeout participant 2 is
  in step Prevoting with an empty prevote log, and the flag is set; the three prevotes
  that follow reach \<open>2f+1 = 3\<close>, and no timeout is ever requested.
\<close>

theorem prevote_timeout_never_requested:
  "snapshot (run exampleProcess timeoutThenPrevotes) 0 NilValue =
     ((1, 0, Prevoting, (NilValue, InvalidRound), (NilValue, InvalidRound),
       [BroadcastPrevote 1 0 NilValue]),
      (1, 3, None, 3, 0, 0, 0))"
  by code_simp

text \<open>
  What the function does in step Prevoting with the flag unset: the flag is set in any
  case, and the timer is requested when the log holds exactly \<open>2f+1\<close> prevotes.
\<close>

lemma tryTimeoutPrevote_in_Prevoting:
  assumes "CurrentStep p = Prevoting"
    and "\<not> checkOnceFlag p (CurrentRound p) OnceFlagTimeoutPrevoteUponSufficientPrevotes"
  shows "tryTimeoutPrevoteUponSufficientPrevotes p =
          setOnceFlag (CurrentRound p) OnceFlagTimeoutPrevoteUponSufficientPrevotes
            (if int (length (prevotesAt p (CurrentRound p))) = 2 * F p + 1
             then emit (TimeoutPrevote (CurrentHeight p) (CurrentRound p)) p else p)"
  using assms by (simp add: tryTimeoutPrevoteUponSufficientPrevotes_def Let_def emit_def)

section \<open>Skipping to a future round\<close>

text \<open>
  Claim C5. For every round \<open>r\<close> beyond the current round, whenever the messages
  stored at \<open>r\<close> (a propose counting as one, with the prevotes and precommits of \<open>r\<close>)
  number at least \<open>f+1\<close>, the process calls \<^verbatim>\<open>StartRound(r)\<close>.

  \<^verbatim>\<open>trySkipToFutureRound\<close> compares the count with \<^verbatim>\<open>F+1\<close> by \<^verbatim>\<open>==\<close>. Participant 2
  reaches round 1 by a precommit timeout and logs two prevotes of round 1; it is
  started again (round 0) and receives a third prevote of round 1. Round 1 is now a
  future round with three messages, \<open>f+1 = 2\<close>, and the process stays at round 0.
\<close>

theorem skip_missed_above_threshold:
  "snapshot (run exampleProcess restartThenPrevote) 1 NilValue =
     ((1, 0, Proposing, (NilValue, InvalidRound), (NilValue, InvalidRound),
       [BroadcastPropose 1 1 7 (- 1), TimeoutPropose 1 0]),
      (1, 3, None, 3, 0, 0, 0))"
  by code_simp

text \<open>What the function does: it skips at exactly \<open>f+1\<close> messages, and only then.\<close>

lemma trySkip_exactly:
  assumes "CurrentRound p < round"
  shows "trySkipToFutureRound round p =
          (if msgsInRound p round = F p + 1 then StartRound round p else p)"
  using assms by (simp add: trySkipToFutureRound_def)

section \<open>Starting a round\<close>

text \<open>
  Claim C6. \<^verbatim>\<open>StartRound(r)\<close> sets the current round to \<open>r\<close> and the step to Proposing.
  If the scheduler names the process itself for the current height and \<open>r\<close>, it
  broadcasts a propose carrying the valid round, whose value is the valid value when
  that is not nil and \<^verbatim>\<open>Proposer.Propose(currentHeight, r)\<close> otherwise; if not, it
  requests \<^verbatim>\<open>TimeoutPropose(currentHeight, r)\<close> and broadcasts no propose. That effect
  is the first one added; the deferred conditions then run on the state with round
  \<open>r\<close> and step Proposing and add prevotes, precommits and prevote or precommit timeout
  requests only; the round is \<open>r\<close> and the height unchanged when \<^verbatim>\<open>StartRound\<close> returns.
\<close>

theorem start_round:
  "CurrentRound (StartRound round p) = round \<and>
   CurrentHeight (StartRound round p) = CurrentHeight p \<and>
   (\<exists>es.
      StartRound round p =
        tryTimeoutPrevoteUponSufficientPrevotes
          (tryTimeoutPrecommitUponSufficientPrecommits
             (tryPrevoteUponSufficientPrevotes
                (tryPrevoteUponPropose
                   (tryPrecommitNilUponSufficientPrevotes
                      (tryPrecommitUponSufficientPrevotes
                         (emit (if scheduler p (CurrentHeight p) round = Whoami p
                                then BroadcastPropose (CurrentHeight p) round
                                       (if ValidValue p \<noteq> NilValue then ValidValue p
                                        else proposer p (CurrentHeight p) round)
                                       (ValidRound p)
                                else TimeoutPropose (CurrentHeight p) round)
                            (p\<lparr>CurrentRound := round, CurrentStep := Proposing\<rparr>))))))) \<and>
      effects (StartRound round p) =
        effects p @
        (if scheduler p (CurrentHeight p) round = Whoami p
         then BroadcastPropose (CurrentHeight p) round
                (if ValidValue p \<noteq> NilValue then ValidValue p
                 else proposer p (CurrentHeight p) round)
                (ValidRound p)
         else TimeoutPropose (CurrentHeight p) round) # es \<and>
      (\<forall>e\<in>set es. roundEffect e))"
proof -
  let ?e = "if scheduler p (CurrentHeight p) round = Whoami p
         then BroadcastPropose (CurrentHeight p) round
                (if ValidValue p \<noteq> NilValue then ValidValue p
                 else proposer p (CurrentHeight p) round)
                (ValidRound p)
         else TimeoutPropose (CurrentHeight p) round"
  have hd: "startRoundHead round p = emit ?e (p\<lparr>CurrentRound := round, CurrentStep := Proposing\<rparr>)"
    by (simp add: startRoundHead_def emit_def)
  from StartRound_effects [of round p] obtain es where
    es: "effects (StartRound round p) = effects (startRoundHead round p) @ es"
      "\<forall>e\<in>set es. roundEffect e"
    by blast
  have eff: "effects (StartRound round p) = effects p @ ?e # es"
    using es(1) unfolding hd by (simp add: emit_def)
  have h: "CurrentHeight (StartRound round p) = CurrentHeight p"
    using keptD(1) [OF StartRound_kept [of round p]] .
  have r: "CurrentRound (StartRound round p) = round"
    by (rule StartRound_CurrentRound)
  have a: "StartRound round p =
        tryTimeoutPrevoteUponSufficientPrevotes
          (tryTimeoutPrecommitUponSufficientPrecommits
             (tryPrevoteUponSufficientPrevotes
                (tryPrevoteUponPropose
                   (tryPrecommitNilUponSufficientPrevotes
                      (tryPrecommitUponSufficientPrevotes
                         (emit ?e (p\<lparr>CurrentRound := round, CurrentStep := Proposing\<rparr>)))))))"
    using StartRound_head [of round p] unfolding hd .
  from a eff es(2) have "\<exists>es. StartRound round p =
        tryTimeoutPrevoteUponSufficientPrevotes
          (tryTimeoutPrecommitUponSufficientPrecommits
             (tryPrevoteUponSufficientPrevotes
                (tryPrevoteUponPropose
                   (tryPrecommitNilUponSufficientPrevotes
                      (tryPrecommitUponSufficientPrevotes
                         (emit ?e (p\<lparr>CurrentRound := round, CurrentStep := Proposing\<rparr>))))))) \<and>
      effects (StartRound round p) = effects p @ ?e # es \<and> (\<forall>e\<in>set es. roundEffect e)"
    by (intro exI [of _ es] conjI)
  with r h show ?thesis by (intro conjI)
qed

theorem start_round_witness:
  "scheduler exampleProcess 1 1 = Whoami exampleProcess \<and>
   (\<exists>es. effects (StartRound 1 exampleProcess) = BroadcastPropose 1 1 7 (- 1) # es) \<and>
   observe (StartRound 1 exampleProcess) =
     (1, 1, Proposing, (NilValue, InvalidRound), (NilValue, InvalidRound),
      [BroadcastPropose 1 1 7 (- 1)]) \<and>
   observe (StartRound 0 exampleProcess) =
     (1, 0, Proposing, (NilValue, InvalidRound), (NilValue, InvalidRound),
      [TimeoutPropose 1 0])"
proof -
  have f: "scheduler exampleProcess 1 1 = Whoami exampleProcess"
      "CurrentHeight exampleProcess = 1" "effects exampleProcess = []"
      "ValidValue exampleProcess = NilValue" "ValidRound exampleProcess = - 1"
      "proposer exampleProcess 1 1 = 7"
    by code_simp+
  have o: "observe (StartRound 1 exampleProcess) =
     (1, 1, Proposing, (NilValue, InvalidRound), (NilValue, InvalidRound),
      [BroadcastPropose 1 1 7 (- 1)])"
   "observe (StartRound 0 exampleProcess) =
     (1, 0, Proposing, (NilValue, InvalidRound), (NilValue, InvalidRound),
      [TimeoutPropose 1 0])"
    by code_simp+
  from start_round [of 1 exampleProcess]
  have "\<exists>es. effects (StartRound 1 exampleProcess) = BroadcastPropose 1 1 7 (- 1) # es"
    by (auto simp add: f)
  with f(1) o show ?thesis by simp
qed

section \<open>Lock coherence\<close>




section \<open>Delivering a message twice\<close>

text \<open>
  Claim C8. For every process state and every propose, prevote or precommit message,
  the second of two deliveries of the message is dropped by the insert function,
  before any condition is tried again: the process after the second delivery is the
  process after the first one, with the same broadcasts, timer requests and commits.
  The only thing a second delivery can add is a repeated report to the catcher, when
  the message differs from the one logged for its round (and sender).
\<close>

theorem delivery_idempotent:
  "(\<not> fst (insertPropose propose (ProposeEvent propose p)) \<and>
    (\<exists>cs. (\<forall>c\<in>set cs. isCatch c) \<and>
      ProposeEvent propose (ProposeEvent propose p) =
        (ProposeEvent propose p)\<lparr>effects := effects (ProposeEvent propose p) @ cs\<rparr>)) \<and>
   (\<not> fst (insertPrevote prevote (PrevoteEvent prevote p)) \<and>
    (\<exists>cs. (\<forall>c\<in>set cs. isCatch c) \<and>
      PrevoteEvent prevote (PrevoteEvent prevote p) =
        (PrevoteEvent prevote p)\<lparr>effects := effects (PrevoteEvent prevote p) @ cs\<rparr>)) \<and>
   (\<not> fst (insertPrecommit precommit (PrecommitEvent precommit p)) \<and>
    (\<exists>cs. (\<forall>c\<in>set cs. isCatch c) \<and>
      PrecommitEvent precommit (PrecommitEvent precommit p) =
        (PrecommitEvent precommit p)\<lparr>effects := effects (PrecommitEvent precommit p) @ cs\<rparr>))"
  using ProposeEvent_twice [of propose p] PrevoteEvent_twice [of prevote p]
    PrecommitEvent_twice [of precommit p]
  by (intro conjI) (rule conjunct1, assumption, rule conjunct2, assumption)+

theorem delivery_idempotent_witness:
  "(\<exists>cs. list_all isCatch cs \<and>
      PrevoteEvent (examplePrevote 8 0 0) (PrevoteEvent (examplePrevote 8 0 0) (PrevoteEvent (examplePrevote 7 0 0) exampleProcess)) =
        (PrevoteEvent (examplePrevote 8 0 0) (PrevoteEvent (examplePrevote 7 0 0) exampleProcess))
          \<lparr>effects := effects (PrevoteEvent (examplePrevote 8 0 0) (PrevoteEvent (examplePrevote 7 0 0) exampleProcess)) @ cs\<rparr>) \<and>
   effects (run exampleProcess equivocation) =
     [CatchDoublePrevote (examplePrevote 8 0 0) (examplePrevote 7 0 0),
      CatchDoublePrevote (examplePrevote 8 0 0) (examplePrevote 7 0 0)]"
proof -
  have e: "effects (run exampleProcess equivocation) =
     [CatchDoublePrevote (examplePrevote 8 0 0) (examplePrevote 7 0 0),
      CatchDoublePrevote (examplePrevote 8 0 0) (examplePrevote 7 0 0)]"
    by code_simp
  from delivery_idempotent [of _ "PrevoteEvent (examplePrevote 7 0 0) exampleProcess" "examplePrevote 8 0 0"]
  show ?thesis using e by (simp add: list_all_iff)
qed

section \<open>Proposes are broadcast by the scheduled proposer only\<close>

text \<open>
  Claim C10. Whatever the state a run starts from and whatever the events delivered,
  the effects of the process only grow, and every propose broadcast during the run is
  for a height and round at which the scheduler names the process itself. The only
  place that emits a propose is the body of \<^verbatim>\<open>StartRound\<close>, under that test; the
  conditions emit prevotes, precommits and timeout requests only (lemma
  \<open>blockStep_effects\<close>).
\<close>

theorem propose_only_when_scheduled:
  "effects (run p evs) = effects p @ newEffects p (run p evs) \<and>
   (\<forall>e\<in>set (newEffects p (run p evs)). proposeInOrder p e)"
  using run_extends [of p evs]
  by (auto simp add: extends_iff newEffects_def)

theorem propose_only_when_scheduled_witness:
  "BroadcastPropose 2 0 7 (- 1) \<in> set (newEffects exampleProcess (run exampleProcess happyPath)) \<and>
   scheduler exampleProcess 2 0 = Whoami exampleProcess"
proof -
  have m: "BroadcastPropose 2 0 7 (- 1) \<in> set (newEffects exampleProcess (run exampleProcess happyPath))"
    by code_simp
  with propose_only_when_scheduled [of exampleProcess happyPath]
  have "proposeInOrder exampleProcess (BroadcastPropose 2 0 7 (- 1))" by blast
  with m show ?thesis by simp
qed
end
